theory Spec2Isabelle
  imports Main "HOL-Library.AList"
begin

section \<open>The modal manager of royal.js\<close>

text \<open>
  A shallow embedding of \<^verbatim>\<open>class ModalManager\<close> (src/dist/royal.js, lines 209-367).
  The manager's own fields, the part of the page it touches (class lists and inline
  styles of the modal elements, the overflow style of the body), the browser's timer
  queue and the registered event listeners are the fields of one state record that
  every method takes and returns.

  Callbacks supplied by the host (\<^verbatim>\<open>onOpen\<close>, \<^verbatim>\<open>onClose\<close>, \<^verbatim>\<open>beforeClose\<close>) are opaque:
  the model records each invocation in a trace and takes what \<^verbatim>\<open>beforeClose\<close> returns
  from the registered record. Callbacks that call back into the manager or throw are
  outside the model.
\<close>

subsection \<open>Data\<close>

type_synonym elem = nat
  \<comment> \<open>the identity of a DOM element\<close>

record dom_el =
  cls_active :: bool
  cls_show :: bool
  style_display :: string

text \<open>
  The options stored with a modal. \<open>onOpen\<close> and \<open>onClose\<close> say whether a function is
  stored (otherwise \<^verbatim>\<open>null\<close>); \<open>beforeClose\<close> is \<open>None\<close> for \<^verbatim>\<open>null\<close> and \<open>Some r\<close> for
  a function, where \<open>r = False\<close> means that the function returns the value
  \<^verbatim>\<open>false\<close> and \<open>r = True\<close> that it returns anything else.
\<close>

record modal_options =
  onOpen :: bool
  onClose :: bool
  beforeClose :: "bool option"
  closeOnOverlay_opt :: bool

record modal =
  element :: elem
  overlay :: "elem option"
  closeBtn :: "elem option"
  options :: modal_options

text \<open>
  The \<^verbatim>\<open>options\<close> argument of \<^verbatim>\<open>register\<close>; \<open>arg_closeOnOverlay = None\<close> is a missing
  property.
\<close>

record register_options =
  arg_onOpen :: bool
  arg_onClose :: bool
  arg_beforeClose :: "bool option"
  arg_closeOnOverlay :: "bool option"

text \<open>The closures handed to \<^verbatim>\<open>setTimeout\<close>, with the variables they capture.\<close>

datatype task =
    ShowTask modal
  | SettleTask string modal bool

text \<open>The closures handed to \<^verbatim>\<open>Utils.on\<close>.\<close>

datatype handler =
    CloseBtnClick string
  | OverlayClick string elem
  | TriggerClick string
  | EscKeydown

datatype evt_target = Document | Element elem

datatype 'd call = OnOpen string 'd | OnClose string | BeforeClose string

record 'd manager =
  modals :: "(string \<times> modal) list"
  activeModal :: "string option"
  queue :: "(string \<times> 'd) list"
  closeOnOverlay :: bool
  closeOnEsc :: bool
  bodyScrollLock :: bool
  sequential :: bool
  elems :: "elem \<Rightarrow> dom_el"
  body_overflow :: string
  query_overlay :: "elem \<Rightarrow> elem option"
  query_closeBtn :: "elem \<Rightarrow> elem option"
  timers :: "(nat \<times> task) list"
  now :: nat
  listeners :: "(evt_target \<times> handler) list"
  trace :: "'d call list"

subsection \<open>JavaScript truthiness of an id\<close>

text \<open>\<^verbatim>\<open>null\<close> and the empty string are falsy; \<^verbatim>\<open>a || b\<close> is \<^verbatim>\<open>a\<close> when \<^verbatim>\<open>a\<close> is truthy.\<close>

definition truthy :: "string option \<Rightarrow> bool" where
  "truthy v = (case v of None \<Rightarrow> False | Some s \<Rightarrow> s \<noteq> [])"

definition js_or :: "string option \<Rightarrow> string option \<Rightarrow> string option" where
  "js_or a b = (if truthy a then a else b)"

subsection \<open>Page and timer primitives\<close>

definition upd_el :: "elem \<Rightarrow> (dom_el \<Rightarrow> dom_el) \<Rightarrow> 'd manager \<Rightarrow> 'd manager" where
  "upd_el e f s = s\<lparr>elems := (elems s)(e := f (elems s e))\<rparr>"

definition setTimeout :: "task \<Rightarrow> nat \<Rightarrow> 'd manager \<Rightarrow> 'd manager" where
  "setTimeout t delay s = s\<lparr>timers := timers s @ [(now s + delay, t)]\<rparr>"

definition invoke :: "'d call \<Rightarrow> 'd manager \<Rightarrow> 'd manager" where
  "invoke c s = s\<lparr>trace := trace s @ [c]\<rparr>"

definition addListener :: "evt_target \<Rightarrow> handler \<Rightarrow> 'd manager \<Rightarrow> 'd manager" where
  "addListener t h s = s\<lparr>listeners := listeners s @ [(t, h)]\<rparr>"

subsection \<open>The methods\<close>

text \<open>\<^verbatim>\<open>hasOtherActiveModals\<close> (lines 360-366): counts the registered elements that carry
  the class \<^verbatim>\<open>active\<close>.\<close>

definition hasOtherActiveModals :: "'d manager \<Rightarrow> bool" where
  "hasOtherActiveModals s =
     (length (filter (\<lambda>(i, m). cls_active (elems s (element m))) (modals s)) > 0)"

text \<open>\<^verbatim>\<open>close\<close> (lines 314-351), the synchronous part. The body of the timer callback is
  \<open>settle\<close> below.\<close>

definition close_modal :: "string option \<Rightarrow> bool \<Rightarrow> 'd manager \<Rightarrow> 'd manager" where
  "close_modal i silent s =
     (case js_or i (activeModal s) of
        None \<Rightarrow> s
      | Some modalId \<Rightarrow>
          if modalId = [] then s
          else (case map_of (modals s) modalId of
            None \<Rightarrow> s
          | Some m \<Rightarrow>
              (let leave = (\<lambda>s0. setTimeout (SettleTask modalId m silent) 300
                                 (upd_el (element m) (\<lambda>d. d\<lparr>cls_show := False\<rparr>) s0))
               in if beforeClose (options m) \<noteq> None \<and> \<not> silent
                  then (let s1 = invoke (BeforeClose modalId) s
                        in if beforeClose (options m) = Some False then s1 else leave s1)
                  else leave s)))"

text \<open>\<^verbatim>\<open>open\<close> (lines 281-312).\<close>

definition open_modal :: "string \<Rightarrow> 'd \<Rightarrow> 'd manager \<Rightarrow> 'd manager" where
  "open_modal i data s =
     (if sequential s \<and> truthy (activeModal s)
      then s\<lparr>queue := queue s @ [(i, data)]\<rparr>
      else (case map_of (modals s) i of
        None \<Rightarrow> s
      | Some m \<Rightarrow>
          (let s1 = (if truthy (activeModal s) \<and> activeModal s \<noteq> Some i
                     then close_modal (activeModal s) True s else s);
               s2 = upd_el (element m)
                      (\<lambda>d. d\<lparr>cls_active := True, style_display := ''flex''\<rparr>) s1;
               s3 = (if bodyScrollLock s2 then s2\<lparr>body_overflow := ''hidden''\<rparr> else s2);
               s4 = s3\<lparr>activeModal := Some i\<rparr>;
               s5 = setTimeout (ShowTask m) 10 s4
           in if onOpen (options m) then invoke (OnOpen i data) s5 else s5)))"

text \<open>The callback that \<^verbatim>\<open>close\<close> schedules (lines 329-350): first its own updates, then
  the queue.\<close>

definition settle_effects :: "string \<Rightarrow> modal \<Rightarrow> bool \<Rightarrow> 'd manager \<Rightarrow> 'd manager" where
  "settle_effects modalId m silent s =
     (let s1 = upd_el (element m) (\<lambda>d. d\<lparr>cls_active := False, style_display := []\<rparr>) s;
          s2 = (if bodyScrollLock s1 \<and> \<not> hasOtherActiveModals s1
                then s1\<lparr>body_overflow := []\<rparr> else s1);
          s3 = (if Some modalId = activeModal s2 then s2\<lparr>activeModal := None\<rparr> else s2)
      in if \<not> silent \<and> onClose (options m) then invoke (OnClose modalId) s3 else s3)"

definition process_queue :: "'d manager \<Rightarrow> 'd manager" where
  "process_queue s =
     (case queue s of
        [] \<Rightarrow> s
      | (i, data) # rest \<Rightarrow> open_modal i data (s\<lparr>queue := rest\<rparr>))"

definition settle :: "string \<Rightarrow> modal \<Rightarrow> bool \<Rightarrow> 'd manager \<Rightarrow> 'd manager" where
  "settle modalId m silent s = process_queue (settle_effects modalId m silent s)"

text \<open>\<^verbatim>\<open>closeAll\<close> (lines 353-358): the registry is visited in insertion order.\<close>

definition closeAll :: "'d manager \<Rightarrow> 'd manager" where
  "closeAll s =
     (fold (\<lambda>(i, m) s'. close_modal (Some i) True s') (modals s) s)\<lparr>queue := []\<rparr>"

text \<open>\<^verbatim>\<open>register\<close> (lines 250-279). \<^verbatim>\<open>Map.set\<close> replaces the value of a key that is present
  and keeps its position, and appends a new key, as \<open>AList.update\<close> does.\<close>

definition register :: "string \<Rightarrow> elem \<Rightarrow> register_options \<Rightarrow> 'd manager \<Rightarrow> 'd manager" where
  "register i el opts s =
     (let ov = query_overlay s el;
          cb = query_closeBtn s el;
          m = \<lparr>element = el, overlay = ov, closeBtn = cb,
               options = \<lparr>onOpen = arg_onOpen opts, onClose = arg_onClose opts,
                          beforeClose = arg_beforeClose opts,
                          closeOnOverlay_opt =
                            (if arg_closeOnOverlay opts \<noteq> Some False
                             then closeOnOverlay s else False)\<rparr>\<rparr>;
          s1 = s\<lparr>modals := AList.update i m (modals s)\<rparr>;
          s2 = (case cb of None \<Rightarrow> s1
                | Some b \<Rightarrow> addListener (Element b) (CloseBtnClick i) s1)
      in case ov of
           None \<Rightarrow> s2
         | Some v \<Rightarrow> if closeOnOverlay s2 then addListener (Element v) (OverlayClick i v) s2
                     else s2)"

subsection \<open>The constructor\<close>

text \<open>
  What the constructor reads: the options object, and from the page the elements
  carrying \<^verbatim>\<open>data-rc-modal\<close> (with the attribute's value and the id that
  \<^verbatim>\<open>Utils.generateID\<close> would return for it, which depends on the clock and on
  \<^verbatim>\<open>Math.random\<close>) and the elements carrying \<^verbatim>\<open>data-rc-modal-trigger\<close>.
\<close>

record config =
  cfg_closeOnOverlay :: "bool option"
  cfg_closeOnEsc :: "bool option"
  cfg_bodyScrollLock :: "bool option"
  cfg_sequential :: bool

record page =
  page_elems :: "elem \<Rightarrow> dom_el"
  page_overflow :: string
  page_overlay :: "elem \<Rightarrow> elem option"
  page_closeBtn :: "elem \<Rightarrow> elem option"
  page_modals :: "(elem \<times> string \<times> string) list"
  page_triggers :: "(elem \<times> string) list"

definition no_options :: register_options where
  "no_options = \<lparr>arg_onOpen = False, arg_onClose = False, arg_beforeClose = None,
                 arg_closeOnOverlay = None\<rparr>"

definition init :: "page \<Rightarrow> 'd manager \<Rightarrow> 'd manager" where
  "init p s =
     (let s1 = fold (\<lambda>(el, attr, gen) s'.
                 register (if attr \<noteq> [] then attr else gen) el no_options s')
                 (page_modals p) s;
          s2 = fold (\<lambda>(el, target) s'. addListener (Element el) (TriggerClick target) s')
                 (page_triggers p) s1
      in if closeOnEsc s2 then addListener Document EscKeydown s2 else s2)"

definition construct :: "config \<Rightarrow> page \<Rightarrow> 'd manager" where
  "construct c p =
     init p \<lparr>modals = [], activeModal = None, queue = [],
             closeOnOverlay = (cfg_closeOnOverlay c \<noteq> Some False),
             closeOnEsc = (cfg_closeOnEsc c \<noteq> Some False),
             bodyScrollLock = (cfg_bodyScrollLock c \<noteq> Some False),
             sequential = cfg_sequential c,
             elems = page_elems p, body_overflow = page_overflow p,
             query_overlay = page_overlay p, query_closeBtn = page_closeBtn p,
             timers = [], now = 0, listeners = [], trace = []\<rparr>"

subsection \<open>The event loop\<close>

text \<open>
  A pending timer is a due time and a task. The browser runs the timer that is due
  first, and of two timers due at the same time the one that was set first.
\<close>

fun next_timer :: "(nat \<times> 'a) list \<Rightarrow> ((nat \<times> 'a) \<times> (nat \<times> 'a) list) option" where
  "next_timer [] = None"
| "next_timer (p # ps) =
     (case next_timer ps of
        None \<Rightarrow> Some (p, [])
      | Some (q, rest) \<Rightarrow> if fst p \<le> fst q then Some (p, ps) else Some (q, p # rest))"

fun run_task :: "task \<Rightarrow> 'd manager \<Rightarrow> 'd manager" where
  "run_task (ShowTask m) s = upd_el (element m) (\<lambda>d. d\<lparr>cls_show := True\<rparr>) s"
| "run_task (SettleTask modalId m silent) s = settle modalId m silent s"

definition fire :: "'d manager \<Rightarrow> 'd manager" where
  "fire s =
     (case next_timer (timers s) of
        None \<Rightarrow> s
      | Some ((due, t), rest) \<Rightarrow> run_task t (s\<lparr>timers := rest, now := max (now s) due\<rparr>))"

text \<open>What a listener does when its event arrives. \<open>tgt\<close> is the event's target (for a
  click) and \<open>key\<close> the key (for a keydown). A trigger calls \<^verbatim>\<open>open(targetId)\<close> with one
  argument, so the payload is the default \<^verbatim>\<open>null\<close>: \<open>null\<close> is that value in the type of
  payloads.\<close>

fun run_handler :: "elem option \<Rightarrow> string \<Rightarrow> 'd \<Rightarrow> handler \<Rightarrow> 'd manager \<Rightarrow> 'd manager" where
  "run_handler tgt key null (CloseBtnClick i) s = close_modal (Some i) False s"
| "run_handler tgt key null (OverlayClick i ov) s =
     (if tgt = Some ov then close_modal (Some i) False s else s)"
| "run_handler tgt key null (TriggerClick i) s = open_modal i null s"
| "run_handler tgt key null EscKeydown s =
     (if key = ''Escape'' \<and> truthy (activeModal s) then close_modal None False s else s)"

text \<open>
  A click is given by its propagation path, the target first and then its ancestors;
  the listeners of each element on the path run in the order they were added, and those
  of the document last. The listeners are those present when the event is dispatched.
\<close>

definition dispatch_click :: "'d \<Rightarrow> elem list \<Rightarrow> 'd manager \<Rightarrow> 'd manager" where
  "dispatch_click null path s =
     (let tgt = (case path of [] \<Rightarrow> None | e # _ \<Rightarrow> Some e);
          hs = concat (map (\<lambda>t. map snd (filter (\<lambda>(t', h). t' = t) (listeners s)))
                           (map Element path @ [Document]))
      in fold (\<lambda>h s'. (case h of EscKeydown \<Rightarrow> s' | _ \<Rightarrow> run_handler tgt [] null h s')) hs s)"

definition dispatch_keydown :: "'d \<Rightarrow> string \<Rightarrow> 'd manager \<Rightarrow> 'd manager" where
  "dispatch_keydown null key s =
     (let hs = map snd (filter (\<lambda>(t', h). t' = Document) (listeners s))
      in fold (\<lambda>h s'. (case h of EscKeydown \<Rightarrow> run_handler None key null h s' | _ \<Rightarrow> s')) hs s)"

text \<open>What can happen to a manager: a call of one of its methods, an event of the page,
  the next timer running, or time passing.\<close>

datatype 'd event =
    Open string 'd
  | Close "string option" bool
  | CloseAll
  | Register string elem register_options
  | Click "elem list"
  | KeyDown string
  | Fire
  | Elapse nat

fun step :: "'d \<Rightarrow> 'd event \<Rightarrow> 'd manager \<Rightarrow> 'd manager" where
  "step null (Open i data) s = open_modal i data s"
| "step null (Close i silent) s = close_modal i silent s"
| "step null CloseAll s = closeAll s"
| "step null (Register i el opts) s = register i el opts s"
| "step null (Click path) s = dispatch_click null path s"
| "step null (KeyDown key) s = dispatch_keydown null key s"
| "step null Fire s = fire s"
| "step null (Elapse d) s = s\<lparr>now := now s + d\<rparr>"

definition run :: "'d \<Rightarrow> 'd event list \<Rightarrow> 'd manager \<Rightarrow> 'd manager" where
  "run null evs s = fold (step null) evs s"

section \<open>Specification predicates\<close>

text \<open>
  A modal is \<^emph>\<open>Open\<close> when its element carries the class \<^verbatim>\<open>active\<close>. A registry is
  well formed when its ids are distinct and not empty and no two ids share an element.
  A manager is idle when nothing is active, queued or scheduled.
\<close>

definition registry_ok :: "'d manager \<Rightarrow> bool" where
  "registry_ok s \<longleftrightarrow>
     distinct (map fst (modals s)) \<and> distinct (map (\<lambda>(i, m). element m) (modals s)) \<and>
     (\<forall>(i, m) \<in> set (modals s). i \<noteq> [])"

definition is_open :: "'d manager \<Rightarrow> string \<Rightarrow> bool" where
  "is_open s i = (case map_of (modals s) i of None \<Rightarrow> False
                  | Some m \<Rightarrow> cls_active (elems s (element m)))"

definition idle :: "'d manager \<Rightarrow> bool" where
  "idle s \<longleftrightarrow> activeModal s = None \<and> queue s = [] \<and> timers s = [] \<and>
     (\<forall>(i, m) \<in> set (modals s). \<not> cls_active (elems s (element m)))"

text \<open>The invariant of sequential mode: only the modal named by \<open>activeModal\<close> can be
  Open, and every pending settle callback captured the record now registered under its
  id.\<close>

fun task_ok :: "(string \<times> modal) list \<Rightarrow> task \<Rightarrow> bool" where
  "task_ok ms (ShowTask m) = True"
| "task_ok ms (SettleTask i m silent) = (map_of ms i = Some m)"

definition seq_inv :: "'d manager \<Rightarrow> bool" where
  "seq_inv s \<longleftrightarrow> sequential s \<and> registry_ok s \<and>
     (\<forall>(i, m) \<in> set (modals s). cls_active (elems s (element m)) \<longrightarrow> activeModal s = Some i) \<and>
     (\<forall>(d, t) \<in> set (timers s). task_ok (modals s) t)"

text \<open>The events that change the registry.\<close>

fun registers :: "'d event \<Rightarrow> bool" where
  "registers (Register i el opts) = True"
| "registers e = False"

section \<open>An example page\<close>

text \<open>
  Three modals found on the page (the third without a value in its attribute), one
  trigger, and two modals registered by hand with callbacks: \<^verbatim>\<open>guarded\<close>, whose
  \<^verbatim>\<open>beforeClose\<close> returns \<^verbatim>\<open>false\<close>, and \<^verbatim>\<open>promo\<close>, whose \<^verbatim>\<open>beforeClose\<close> returns
  \<^verbatim>\<open>true\<close>. The payload of an \<^verbatim>\<open>open\<close> is a string or \<^verbatim>\<open>null\<close>.
\<close>

definition blank :: dom_el where
  "blank = \<lparr>cls_active = False, cls_show = False, style_display = []\<rparr>"

definition demo_page :: page where
  "demo_page =
     \<lparr>page_elems = (\<lambda>e. blank), page_overflow = [],
      page_overlay = (\<lambda>e. if e = 1 then Some 11 else if e = 2 then Some 12 else None),
      page_closeBtn = (\<lambda>e. if e = 1 then Some 21 else None),
      page_modals = [(1, ''login'', ''modal-1''), (2, ''signup'', ''modal-2''), (3, [], ''modal-3'')],
      page_triggers = [(31, ''login'')]\<rparr>"

definition demo_config :: "bool \<Rightarrow> config" where
  "demo_config seq = \<lparr>cfg_closeOnOverlay = None, cfg_closeOnEsc = None,
                        cfg_bodyScrollLock = None, cfg_sequential = seq\<rparr>"

definition demo_options :: register_options where
  "demo_options = \<lparr>arg_onOpen = True, arg_onClose = True, arg_beforeClose = Some False,
                    arg_closeOnOverlay = Some False\<rparr>"

definition demo :: "bool \<Rightarrow> string option manager" where
  "demo seq =
     register ''promo'' 5 (demo_options\<lparr>arg_beforeClose := Some True\<rparr>)
       (register ''guarded'' 4 demo_options (construct (demo_config seq) demo_page))"

definition demo_calls :: "string option event list" where
  "demo_calls = [Open ''login'' None, Open ''signup'' (Some ''hello''), Open ''nobody'' None,
                 Close (Some ''login'') False, Close None False, Fire, Fire, Elapse 5, Fire, Fire]"

definition guarded_modal :: modal where
  "guarded_modal = \<lparr>element = 4, overlay = None, closeBtn = None,
     options = \<lparr>onOpen = True, onClose = True, beforeClose = Some False,
                closeOnOverlay_opt = False\<rparr>\<rparr>"

definition promo_modal :: modal where
  "promo_modal = \<lparr>element = 5, overlay = None, closeBtn = None,
     options = \<lparr>onOpen = True, onClose = True, beforeClose = Some True,
                closeOnOverlay_opt = False\<rparr>\<rparr>"

definition guarded_open :: "bool \<Rightarrow> string option manager" where
  "guarded_open seq = run None [Open ''guarded'' None, Fire] (demo seq)"


section \<open>Further specification predicates\<close>

text \<open>Trace entries that are invocations of \<^verbatim>\<open>onOpen\<close>, and settle callbacks of silent
  closes.\<close>

fun is_onOpen :: "'d call \<Rightarrow> bool" where
  "is_onOpen (OnOpen i d) = True"
| "is_onOpen c = False"

fun silent_settle :: "task \<Rightarrow> bool" where
  "silent_settle (SettleTask i m silent) = silent"
| "silent_settle t = False"

text \<open>The scan of \<^verbatim>\<open>hasOtherActiveModals\<close> as a property of the state: some registered
  element carries the class \<^verbatim>\<open>active\<close>.\<close>

definition some_active :: "'d manager \<Rightarrow> bool" where
  "some_active s = list_ex (\<lambda>(i, m). cls_active (elems s (element m))) (modals s)"

text \<open>
  Forgetting the stored \<^verbatim>\<open>closeOnOverlay\<close> of every record, in the registry and in the
  records captured by pending timers, and the \<^verbatim>\<open>closeOnOverlay\<close> property of the options
  passed to \<^verbatim>\<open>register\<close>. \<open>new_record\<close> and \<open>new_listeners\<close> are the record that
  \<^verbatim>\<open>register\<close> stores and the listeners it adds.
\<close>

definition forget_modal :: "modal \<Rightarrow> modal" where
  "forget_modal m = m\<lparr>options := (options m)\<lparr>closeOnOverlay_opt := False\<rparr>\<rparr>"

fun forget_task :: "task \<Rightarrow> task" where
  "forget_task (ShowTask m) = ShowTask (forget_modal m)"
| "forget_task (SettleTask i m silent) = SettleTask i (forget_modal m) silent"

definition forget :: "'d manager \<Rightarrow> 'd manager" where
  "forget s = s\<lparr>modals := map (\<lambda>(i, m). (i, forget_modal m)) (modals s),
                timers := map (\<lambda>(d, t). (d, forget_task t)) (timers s)\<rparr>"

definition new_record :: "elem \<Rightarrow> register_options \<Rightarrow> 'd manager \<Rightarrow> modal" where
  "new_record el opts s =
     \<lparr>element = el, overlay = query_overlay s el, closeBtn = query_closeBtn s el,
      options = \<lparr>onOpen = arg_onOpen opts, onClose = arg_onClose opts,
                 beforeClose = arg_beforeClose opts,
                 closeOnOverlay_opt =
                   (if arg_closeOnOverlay opts \<noteq> Some False then closeOnOverlay s else False)\<rparr>\<rparr>"

definition new_listeners :: "string \<Rightarrow> elem \<Rightarrow> 'd manager \<Rightarrow> (evt_target \<times> handler) list" where
  "new_listeners i el s =
     (case query_closeBtn s el of None \<Rightarrow> [] | Some b \<Rightarrow> [(Element b, CloseBtnClick i)])
     @ (case query_overlay s el of None \<Rightarrow> []
        | Some v \<Rightarrow> if closeOnOverlay s then [(Element v, OverlayClick i v)] else [])"

fun forget_event :: "'d event \<Rightarrow> 'd event" where
  "forget_event (Register i el opts) = Register i el (opts\<lparr>arg_closeOnOverlay := None\<rparr>)"
| "forget_event e = e"

text \<open>More of the example page.\<close>

definition login_modal :: modal where
  "login_modal = \<lparr>element = 1, overlay = Some 11, closeBtn = Some 21,
     options = \<lparr>onOpen = False, onClose = False, beforeClose = None,
                closeOnOverlay_opt = True\<rparr>\<rparr>"

definition signup_modal :: modal where
  "signup_modal = \<lparr>element = 2, overlay = Some 12, closeBtn = None,
     options = \<lparr>onOpen = False, onClose = False, beforeClose = None,
                closeOnOverlay_opt = True\<rparr>\<rparr>"

definition promo_open :: "string option manager" where
  "promo_open = run None [Open ''promo'' None, Fire] (demo False)"

definition login_open :: "string option manager" where
  "login_open = run None [Open ''login'' None, Fire] (demo False)"

definition demo_base :: "string option manager" where
  "demo_base = construct (demo_config False) demo_page"

text \<open>
  The lock is engaged whenever a registered modal is active; and the state of a manager
  while its constructor registers the modals of the page, which are among the elements
  \<open>E\<close>.
\<close>

definition lock_inv :: "'d manager \<Rightarrow> bool" where
  "lock_inv s \<longleftrightarrow> bodyScrollLock s \<and> (some_active s \<longrightarrow> body_overflow s = ''hidden'')"

definition fresh_start :: "(elem \<Rightarrow> dom_el) \<Rightarrow> elem set \<Rightarrow> 'd manager \<Rightarrow> bool" where
  "fresh_start pe E s \<longleftrightarrow>
     distinct (map fst (modals s)) \<and> distinct (map (\<lambda>(i, m). element m) (modals s)) \<and>
     (\<forall>(i, m) \<in> set (modals s). i \<noteq> []) \<and>
     set (map (\<lambda>(i, m). element m) (modals s)) \<subseteq> E \<and>
     activeModal s = None \<and> queue s = [] \<and> timers s = [] \<and> elems s = pe"

section \<open>Basic facts about the methods\<close>

lemmas prim_defs = upd_el_def setTimeout_def invoke_def addListener_def

lemma close_modal_vetoed:
  assumes "js_or i (activeModal s) = Some modalId" and "modalId \<noteq> []"
    and "map_of (modals s) modalId = Some m"
    and "beforeClose (options m) = Some False"
  shows "close_modal i False s = s\<lparr>trace := trace s @ [BeforeClose modalId]\<rparr>"
  using assms by (simp add: close_modal_def invoke_def)

lemma close_modal_unvetoed:
  assumes "js_or i (activeModal s) = Some modalId" and "modalId \<noteq> []"
    and "map_of (modals s) modalId = Some m"
    and "silent \<or> beforeClose (options m) \<noteq> Some False"
  shows "close_modal i silent s =
     s\<lparr>elems := (elems s)(element m := (elems s (element m))\<lparr>cls_show := False\<rparr>),
       timers := timers s @ [(now s + 300, SettleTask modalId m silent)],
       trace := trace s @ (if beforeClose (options m) \<noteq> None \<and> \<not> silent
                           then [BeforeClose modalId] else [])\<rparr>"
  using assms by (auto simp add: close_modal_def prim_defs Let_def)

lemma open_modal_queued:
  "sequential s \<Longrightarrow> truthy (activeModal s) \<Longrightarrow> open_modal i d s = s\<lparr>queue := queue s @ [(i, d)]\<rparr>"
  by (simp add: open_modal_def)

lemma close_modal_fields [simp]:
  "activeModal (close_modal i silent s) = activeModal s"
  "queue (close_modal i silent s) = queue s"
  "modals (close_modal i silent s) = modals s"
  "body_overflow (close_modal i silent s) = body_overflow s"
  "now (close_modal i silent s) = now s"
  "sequential (close_modal i silent s) = sequential s"
  "bodyScrollLock (close_modal i silent s) = bodyScrollLock s"
  "listeners (close_modal i silent s) = listeners s"
  by (auto simp add: close_modal_def prim_defs Let_def split: option.splits)

lemma open_modal_fields [simp]:
  "modals (open_modal i d s) = modals s"
  "now (open_modal i d s) = now s"
  "sequential (open_modal i d s) = sequential s"
  "bodyScrollLock (open_modal i d s) = bodyScrollLock s"
  "listeners (open_modal i d s) = listeners s"
  by (auto simp add: open_modal_def prim_defs Let_def split: option.splits)

lemma open_modal_queue_idle:
  "\<not> (sequential s \<and> truthy (activeModal s)) \<Longrightarrow> queue (open_modal i d s) = queue s"
  by (auto simp add: open_modal_def prim_defs Let_def split: option.splits)

section \<open>Sequential mode keeps at most one modal open\<close>

lemma close_modal_cases:
  obtains (noop) "close_modal i silent s = s"
  | (veto) modalId where "\<not> silent"
      and "close_modal i silent s = s\<lparr>trace := trace s @ [BeforeClose modalId]\<rparr>"
  | (leave) modalId m where "map_of (modals s) modalId = Some m" and "modalId \<noteq> []"
      and "js_or i (activeModal s) = Some modalId"
      and "silent \<or> beforeClose (options m) \<noteq> Some False"
      and "close_modal i silent s =
        s\<lparr>elems := (elems s)(element m := (elems s (element m))\<lparr>cls_show := False\<rparr>),
          timers := timers s @ [(now s + 300, SettleTask modalId m silent)],
          trace := trace s @ (if beforeClose (options m) \<noteq> None \<and> \<not> silent
                           then [BeforeClose modalId] else [])\<rparr>"
proof (cases "js_or i (activeModal s)")
  case None
  then have "close_modal i silent s = s" by (simp add: close_modal_def)
  then show ?thesis by (rule noop)
next
  case (Some modalId)
  show ?thesis
  proof (cases "modalId = [] \<or> map_of (modals s) modalId = None")
    case True
    with Some have "close_modal i silent s = s" by (auto simp add: close_modal_def)
    then show ?thesis by (rule noop)
  next
    case False
    then obtain m where m: "modalId \<noteq> []" "map_of (modals s) modalId = Some m" by auto
    show ?thesis
    proof (cases "\<not> silent \<and> beforeClose (options m) = Some False")
      case True
      with close_modal_vetoed[OF Some m] show ?thesis by (auto intro: veto)
    next
      case False
      then have "silent \<or> beforeClose (options m) \<noteq> Some False" by blast
      from m(2,1) Some this close_modal_unvetoed[OF Some m this] show ?thesis by (rule leave)
    qed
  qed
qed

lemma seq_inv_close: assumes "seq_inv s" shows "seq_inv (close_modal i silent s)"
proof (cases i silent s rule: close_modal_cases)
  case noop
  with assms show ?thesis by simp
next
  case (veto modalId)
  with assms show ?thesis by (simp add: seq_inv_def registry_ok_def)
next
  case (leave modalId m)
  let ?s = "close_modal i silent s"
  have 1: "sequential ?s" "registry_ok ?s"
    using assms by (simp_all add: seq_inv_def registry_ok_def)
  have 2: "activeModal ?s = Some j"
    if "(j, m') \<in> set (modals ?s)" "cls_active (elems ?s (element m'))" for j m'
  proof -
    from that(2) have "cls_active (elems s (element m'))"
      by (simp add: leave(5) split: if_splits)
    with that(1) assms show ?thesis by (auto simp add: seq_inv_def)
  qed
  have 3: "task_ok (modals ?s) t" if "(due, t) \<in> set (timers ?s)" for due t
  proof -
    from that have "(due, t) \<in> set (timers s) \<or> t = SettleTask modalId m silent"
      by (auto simp add: leave(5))
    with assms leave(1) show ?thesis by (auto simp add: seq_inv_def)
  qed
  from 1 2 3 show ?thesis unfolding seq_inv_def by blast
qed

lemma same_element:
  assumes "distinct (map (\<lambda>(i, m). element m) ms)" "(i, m) \<in> set ms" "(j, m') \<in> set ms"
    "element m = element m'"
  shows "i = j \<and> m = m'"
proof -
  have "inj_on (\<lambda>(i, m). element m) (set ms)"
    using assms(1) by (simp add: distinct_map)
  from inj_onD[OF this _ assms(2,3)] assms(4) show ?thesis by auto
qed

lemma open_modal_plain:
  assumes "\<not> truthy (activeModal s)" "map_of (modals s) i = Some m"
  shows "open_modal i d s =
     s\<lparr>elems := (elems s)(element m := (elems s (element m))\<lparr>cls_active := True, style_display := ''flex''\<rparr>),
       body_overflow := (if bodyScrollLock s then ''hidden'' else body_overflow s),
       activeModal := Some i,
       timers := timers s @ [(now s + 10, ShowTask m)],
       trace := trace s @ (if onOpen (options m) then [OnOpen i d] else [])\<rparr>"
  using assms by (simp add: open_modal_def prim_defs Let_def)

lemma seq_inv_open: assumes "seq_inv s" shows "seq_inv (open_modal i d s)"
proof (cases "truthy (activeModal s)")
  case True
  with assms show ?thesis
    by (simp add: open_modal_queued seq_inv_def registry_ok_def)
next
  case False
  show ?thesis
  proof (cases "map_of (modals s) i")
    case None
    with False assms show ?thesis by (simp add: open_modal_def)
  next
    case (Some m)
    let ?s = "open_modal i d s"
    note eq = open_modal_plain[OF False Some, of d]
    have mem: "(i, m) \<in> set (modals s)" using Some by (rule map_of_SomeD)
    have closed: "\<not> cls_active (elems s (element m'))" if "(j, m') \<in> set (modals s)" for j m'
    proof
      assume "cls_active (elems s (element m'))"
      with assms that have "activeModal s = Some j" "j \<noteq> []"
        by (auto simp add: seq_inv_def registry_ok_def)
      with False show False by (simp add: truthy_def)
    qed
    have dist: "distinct (map (\<lambda>(i, m). element m) (modals s))"
      using assms by (simp add: seq_inv_def registry_ok_def)
    have same: "j = i" if "(j, m') \<in> set (modals s)" "element m' = element m" for j m'
      using same_element[OF dist that(1) mem that(2)] by simp
    have 1: "sequential ?s" "registry_ok ?s"
      using assms by (simp_all add: seq_inv_def registry_ok_def)
    have 2: "activeModal ?s = Some j"
      if "(j, m') \<in> set (modals ?s)" "cls_active (elems ?s (element m'))" for j m'
    proof (cases "element m' = element m")
      case True
      with that(1) same[of j m'] show ?thesis by (simp add: eq)
    next
      case False
      with that closed[of j m'] show ?thesis by (simp add: eq)
    qed
    have 3: "task_ok (modals ?s) t" if "(due, t) \<in> set (timers ?s)" for due t
    proof -
      from that have "(due, t) \<in> set (timers s) \<or> t = ShowTask m" by (auto simp add: eq)
      with assms show ?thesis by (auto simp add: seq_inv_def)
    qed
    from 1 2 3 show ?thesis unfolding seq_inv_def by blast
  qed
qed

lemma settle_effects_fields [simp]:
  "modals (settle_effects i m silent s) = modals s"
  "timers (settle_effects i m silent s) = timers s"
  "queue (settle_effects i m silent s) = queue s"
  "now (settle_effects i m silent s) = now s"
  "sequential (settle_effects i m silent s) = sequential s"
  "bodyScrollLock (settle_effects i m silent s) = bodyScrollLock s"
  "listeners (settle_effects i m silent s) = listeners s"
  "elems (settle_effects i m silent s) =
     (elems s)(element m := (elems s (element m))\<lparr>cls_active := False, style_display := []\<rparr>)"
  "activeModal (settle_effects i m silent s) =
     (if Some i = activeModal s then None else activeModal s)"
  "trace (settle_effects i m silent s) =
     trace s @ (if \<not> silent \<and> onClose (options m) then [OnClose i] else [])"
  by (simp_all add: settle_effects_def prim_defs Let_def)

lemma seq_inv_settle_effects:
  assumes "seq_inv s" "map_of (modals s) i = Some m"
  shows "seq_inv (settle_effects i m silent s)"
proof -
  let ?s = "settle_effects i m silent s"
  have dk: "distinct (map fst (modals s))"
    using assms by (simp add: seq_inv_def registry_ok_def)
  have 1: "sequential ?s" "registry_ok ?s"
    using assms by (simp_all add: seq_inv_def registry_ok_def)
  have 2: "activeModal ?s = Some j"
    if "(j, m') \<in> set (modals ?s)" "cls_active (elems ?s (element m'))" for j m'
  proof -
    from that have el: "element m' \<noteq> element m" and act: "cls_active (elems s (element m'))"
      by (auto split: if_splits)
    from that(1) act assms(1) have a: "activeModal s = Some j" by (auto simp add: seq_inv_def)
    have "j \<noteq> i"
    proof
      assume "j = i"
      with that(1) dk have "map_of (modals s) i = Some m'" by simp
      with assms(2) el show False by simp
    qed
    with a show ?thesis by simp
  qed
  have 3: "task_ok (modals ?s) t" if "(due, t) \<in> set (timers ?s)" for due t
    using that assms(1) by (auto simp add: seq_inv_def)
  from 1 2 3 show ?thesis unfolding seq_inv_def by blast
qed

lemma seq_inv_process_queue: "seq_inv s \<Longrightarrow> seq_inv (process_queue s)"
proof -
  assume a: "seq_inv s"
  have "seq_inv (s\<lparr>queue := q\<rparr>)" for q
    using a by (simp add: seq_inv_def registry_ok_def)
  with a show ?thesis
    by (auto simp add: process_queue_def seq_inv_open split: list.splits)
qed

lemma next_timer_set:
  "next_timer ts = Some (p, rest) \<Longrightarrow> p \<in> set ts \<and> set rest \<subseteq> set ts"
proof (induction ts arbitrary: p rest)
  case Nil
  then show ?case by simp
next
  case (Cons a ts)
  show ?case
  proof (cases "next_timer ts")
    case None
    with Cons.prems show ?thesis by auto
  next
    case (Some b)
    obtain q r where b: "b = (q, r)" by (cases b)
    from Cons.IH[OF Some[unfolded b]] Cons.prems Some b show ?thesis
      by (auto split: if_splits)
  qed
qed

lemma seq_inv_fire: assumes "seq_inv s" shows "seq_inv (fire s)"
proof (cases "next_timer (timers s)")
  case None
  with assms show ?thesis by (simp add: fire_def)
next
  case (Some a)
  obtain due t rest where a: "a = ((due, t), rest)" by (cases a) auto
  let ?s = "s\<lparr>timers := rest, now := max (now s) due\<rparr>"
  from next_timer_set[OF Some[unfolded a]]
  have in_ts: "(due, t) \<in> set (timers s)" and sub: "set rest \<subseteq> set (timers s)" by auto
  have inv: "seq_inv ?s"
    using assms sub unfolding seq_inv_def registry_ok_def
    by auto
  have ok: "task_ok (modals ?s) t" using assms in_ts by (auto simp add: seq_inv_def)
  have "seq_inv (run_task t ?s)"
  proof (cases t)
    case (ShowTask m)
    with inv show ?thesis
      unfolding seq_inv_def registry_ok_def by (auto simp add: prim_defs)
  next
    case (SettleTask i m silent)
    with inv ok show ?thesis
      by (simp add: settle_def seq_inv_process_queue seq_inv_settle_effects)
  qed
  with Some a show ?thesis by (simp add: fire_def)
qed

lemma seq_inv_fold:
  assumes "\<And>x s. seq_inv s \<Longrightarrow> seq_inv (f x s)"
  shows "seq_inv s \<Longrightarrow> seq_inv (fold f xs s)"
  by (induction xs arbitrary: s) (simp_all add: assms)

lemma seq_inv_closeAll: assumes "seq_inv s" shows "seq_inv (closeAll s)"
proof -
  have "seq_inv (fold (\<lambda>(i, m) s'. close_modal (Some i) True s') (modals s) s)"
    using assms by (rule seq_inv_fold[rotated]) (auto simp add: seq_inv_close)
  then show ?thesis
    by (simp add: closeAll_def seq_inv_def registry_ok_def)
qed

lemma seq_inv_handler: "seq_inv s \<Longrightarrow> seq_inv (run_handler tgt key null h s)"
  by (cases h) (simp_all add: seq_inv_close seq_inv_open)

lemma seq_inv_step:
  assumes "seq_inv s" "\<not> registers e"
  shows "seq_inv (step null e s)"
proof (cases e)
  case (Click path)
  show ?thesis unfolding Click step.simps dispatch_click_def Let_def
    by (rule seq_inv_fold[OF _ assms(1)])
      (auto simp add: seq_inv_close seq_inv_open split: handler.splits)
next
  case (KeyDown key)
  show ?thesis unfolding KeyDown step.simps dispatch_keydown_def Let_def
    by (rule seq_inv_fold[OF _ assms(1)])
      (auto simp add: seq_inv_close seq_inv_open split: handler.splits)
next
  case (Elapse d)
  with assms show ?thesis by (simp add: seq_inv_def registry_ok_def)
qed (use assms in \<open>simp_all add: seq_inv_close seq_inv_open seq_inv_closeAll seq_inv_fire\<close>)

lemma seq_inv_run:
  "seq_inv s \<Longrightarrow> \<forall>e \<in> set evs. \<not> registers e \<Longrightarrow> seq_inv (run null evs s)"
  unfolding run_def by (induction evs arbitrary: s) (simp_all add: seq_inv_step)

lemma idle_seq_inv: "sequential s \<Longrightarrow> registry_ok s \<Longrightarrow> idle s \<Longrightarrow> seq_inv s"
  by (auto simp add: seq_inv_def idle_def)

lemma seq_one_open:
  assumes "sequential s0" and "registry_ok s0" and "idle s0"
    and "\<forall>e \<in> set evs. \<not> registers e"
  shows "\<forall>i j. is_open (run null evs s0) i \<longrightarrow> is_open (run null evs s0) j \<longrightarrow> i = j"
proof (intro allI impI)
  fix i j
  let ?s = "run null evs s0"
  assume oi: "is_open ?s i" and oj: "is_open ?s j"
  have inv: "seq_inv ?s"
    using assms by (simp add: seq_inv_run idle_seq_inv)
  have "activeModal ?s = Some k" if "is_open ?s k" for k
  proof -
    from that obtain m where m: "map_of (modals ?s) k = Some m" "cls_active (elems ?s (element m))"
      by (auto simp add: is_open_def split: option.splits)
    from map_of_SomeD[OF m(1)] m(2) inv show ?thesis by (auto simp add: seq_inv_def)
  qed
  from this[OF oi] this[OF oj] show "i = j" by simp
qed

section \<open>Vetoed closes\<close>

lemma guarded_open_facts:
  "js_or (Some ''guarded'') (activeModal (guarded_open False)) = Some ''guarded''"
  "map_of (modals (guarded_open False)) ''guarded'' = Some guarded_modal"
  "beforeClose (options guarded_modal) = Some False"
  "is_open (guarded_open False) ''guarded''"
  "sequential (guarded_open True)"
  "truthy (activeModal (guarded_open True))"
  "activeModal (guarded_open True) = Some ''guarded''"
  "map_of (modals (guarded_open True)) ''nobody'' = None"
  "trace (guarded_open True) = [OnOpen ''guarded'' None]"
  "queue (guarded_open True) = []"
  "map_of (modals (guarded_open False)) ''nobody'' = None"
  "\<not> sequential (guarded_open False)"
  by code_simp+

text \<open>
  \<^bold>\<open>C3.\<close> When the modal that a non-silent \<^verbatim>\<open>close\<close> resolves to (the id given, or the
  active modal when none is given) is registered and its \<^verbatim>\<open>beforeClose\<close> returns
  \<^verbatim>\<open>false\<close>, the call returns the state it was given: the same \<open>activeModal\<close>, registry,
  queue, class lists and styles, body overflow and pending timers. The only thing that
  happened is the invocation of \<^verbatim>\<open>beforeClose\<close> itself, which the trace records; no
  \<^verbatim>\<open>onClose\<close> is invoked and no timer is set.
\<close>

theorem close_veto_atomic:
  assumes "js_or i (activeModal s) = Some modalId" and "modalId \<noteq> []"
    and "map_of (modals s) modalId = Some m"
    and "beforeClose (options m) = Some False"
  shows "close_modal i False s = s\<lparr>trace := trace s @ [BeforeClose modalId]\<rparr>"
  using assms by (rule close_modal_vetoed)

theorem close_veto_atomic_witness:
  "is_open (guarded_open False) ''guarded'' \<and>
   close_modal (Some ''guarded'') False (guarded_open False) =
     (guarded_open False)\<lparr>trace := trace (guarded_open False) @ [BeforeClose ''guarded'']\<rparr>"
  using close_veto_atomic[of "Some ''guarded''" "guarded_open False" "''guarded''" guarded_modal]
  by (simp add: guarded_open_facts)

section \<open>What is queued\<close>

text \<open>
  \<^bold>\<open>C4\<close> as stated fails: in sequential mode, with \<^verbatim>\<open>guarded\<close> active, \<^verbatim>\<open>open("guarded")\<close>
  is appended to the queue, and neither a timer is set nor \<^verbatim>\<open>onOpen\<close> invoked.
\<close>

theorem reopen_active_is_queued:
  "sequential (guarded_open True) \<and> activeModal (guarded_open True) = Some ''guarded'' \<and>
   queue (open_modal ''guarded'' None (guarded_open True)) = [(''guarded'', None)] \<and>
   trace (open_modal ''guarded'' None (guarded_open True)) = trace (guarded_open True) \<and>
   timers (open_modal ''guarded'' None (guarded_open True)) = timers (guarded_open True)"
  by code_simp

text \<open>
  \<^bold>\<open>C4, amended.\<close> In sequential mode \<^verbatim>\<open>open(id, data)\<close> appends the request to the queue
  exactly when some modal is active (\<open>activeModal\<close> is truthy), whether that modal is
  \<^verbatim>\<open>id\<close> or another one; the call then changes nothing else. When no modal is active the
  queue is left as it is.
\<close>

theorem open_queues_when_any_active:
  assumes "sequential s"
  shows "(truthy (activeModal s) \<longrightarrow> open_modal i d s = s\<lparr>queue := queue s @ [(i, d)]\<rparr>) \<and>
         (\<not> truthy (activeModal s) \<longrightarrow> queue (open_modal i d s) = queue s)"
  using assms by (simp add: open_modal_queued open_modal_queue_idle)

theorem open_queues_when_any_active_witness:
  "sequential (guarded_open True) \<and> activeModal (guarded_open True) = Some ''guarded'' \<and>
   open_modal ''guarded'' None (guarded_open True) =
     (guarded_open True)\<lparr>queue := [(''guarded'', None)]\<rparr>"
  using open_queues_when_any_active[of "guarded_open True" "''guarded''" None]
  by (simp add: guarded_open_facts truthy_def)

section \<open>Unknown ids\<close>

text \<open>
  \<^bold>\<open>C5\<close> as stated fails: in sequential mode, with a modal active, \<^verbatim>\<open>open\<close> of an id that
  is not registered changes the queue. And the empty string, registered or not, is
  falsy: \<^verbatim>\<open>close("")\<close> closes the active modal.
\<close>

theorem open_unknown_id_is_queued:
  "map_of (modals (guarded_open True)) ''nobody'' = None \<and>
   queue (guarded_open True) = [] \<and>
   queue (open_modal ''nobody'' None (guarded_open True)) = [(''nobody'', None)] \<and>
   map_of (modals promo_open) [] = None \<and> timers promo_open = [] \<and>
   timers (close_modal (Some []) False promo_open) =
     [(310, SettleTask ''promo'' promo_modal False)]"
  by code_simp

text \<open>
  \<^bold>\<open>C5, amended.\<close> For an id that is not registered: \<^verbatim>\<open>close(id)\<close> with a non-empty id
  returns the state unchanged, and so does \<^verbatim>\<open>open(id)\<close> unless the manager is sequential
  and a modal is active; in that case \<^verbatim>\<open>open(id, data)\<close> appends the request to the queue
  and changes nothing else.
\<close>

theorem unknown_id_noop:
  assumes "map_of (modals s) i = None"
  shows "(i \<noteq> [] \<longrightarrow> close_modal (Some i) silent s = s) \<and>
         (\<not> (sequential s \<and> truthy (activeModal s)) \<longrightarrow> open_modal i d s = s) \<and>
         (sequential s \<and> truthy (activeModal s) \<longrightarrow>
            open_modal i d s = s\<lparr>queue := queue s @ [(i, d)]\<rparr>)"
  using assms by (auto simp add: open_modal_def close_modal_def js_or_def truthy_def)

theorem unknown_id_noop_witness:
  "map_of (modals (guarded_open False)) ''nobody'' = None \<and>
   close_modal (Some ''nobody'') False (guarded_open False) = guarded_open False \<and>
   open_modal ''nobody'' None (guarded_open False) = guarded_open False \<and>
   close_modal (Some ''nobody'') False (guarded_open True) = guarded_open True \<and>
   open_modal ''nobody'' None (guarded_open True) =
     (guarded_open True)\<lparr>queue := [(''nobody'', None)]\<rparr>"
  using unknown_id_noop[of "guarded_open False" "''nobody''" False None]
    unknown_id_noop[of "guarded_open True" "''nobody''" False None]
  by (simp add: guarded_open_facts truthy_def)

section \<open>Closing what is not open\<close>

lemma demo_promo_facts:
  "\<not> truthy (activeModal (demo False))"
  "map_of (modals (demo False)) ''promo'' = Some promo_modal"
  "\<not> is_open (demo False) ''promo''"
  "now (demo False) = 0"
  "timers (demo False) = []"
  "trace (demo False) = []"
  "beforeClose (options promo_modal) = Some True"
  by code_simp+

text \<open>
  \<^bold>\<open>C6\<close> as stated fails: \<^verbatim>\<open>promo\<close> is registered and not open, yet \<^verbatim>\<open>close("promo")\<close>
  invokes its \<^verbatim>\<open>beforeClose\<close> and, when the timer runs, its \<^verbatim>\<open>onClose\<close>.
\<close>

theorem close_closed_modal_runs_callbacks:
  "\<not> is_open (demo False) ''promo'' \<and> trace (demo False) = [] \<and> timers (demo False) = [] \<and>
   trace (close_modal (Some ''promo'') False (demo False)) = [BeforeClose ''promo''] \<and>
   trace (run None [Close (Some ''promo'') False, Fire] (demo False)) =
     [BeforeClose ''promo'', OnClose ''promo'']"
  by code_simp

text \<open>
  \<^bold>\<open>C6, amended.\<close> No call throws. \<^verbatim>\<open>close()\<close> without an id when no modal is active
  returns the state unchanged. \<^verbatim>\<open>close(id)\<close> on a registered modal, open or not, that is
  not vetoed leaves \<open>activeModal\<close>, the queue, the body overflow and every \<^verbatim>\<open>active\<close>
  class and display style as they are, but it is not a no-op: unless silent it invokes
  \<^verbatim>\<open>beforeClose\<close> when there is one, it removes the class \<^verbatim>\<open>show\<close> and it sets the
  settle timer, whose callback invokes \<^verbatim>\<open>onClose\<close> (unless silent) when there is one.
\<close>

theorem close_misuse:
  "(\<not> truthy (activeModal s) \<longrightarrow> close_modal None silent s = s) \<and>
   (i \<noteq> [] \<and> map_of (modals s) i = Some m \<and> (silent \<or> beforeClose (options m) \<noteq> Some False) \<longrightarrow>
      (let s' = close_modal (Some i) silent s in
         activeModal s' = activeModal s \<and> queue s' = queue s \<and>
         body_overflow s' = body_overflow s \<and>
         (\<forall>e. cls_active (elems s' e) = cls_active (elems s e) \<and>
              style_display (elems s' e) = style_display (elems s e)) \<and>
         \<not> cls_show (elems s' (element m)) \<and>
         timers s' = timers s @ [(now s + 300, SettleTask i m silent)] \<and>
         trace s' = trace s @ (if beforeClose (options m) \<noteq> None \<and> \<not> silent
                               then [BeforeClose i] else [])) \<and>
      (\<forall>s''. trace (settle_effects i m silent s'') =
              trace s'' @ (if \<not> silent \<and> onClose (options m) then [OnClose i] else [])))"
proof -
  have 1: "\<not> truthy (activeModal s) \<Longrightarrow> close_modal None silent s = s"
    by (auto simp add: close_modal_def js_or_def truthy_def split: option.splits)
  have 2: "i \<noteq> [] \<Longrightarrow> js_or (Some i) (activeModal s) = Some i"
    by (simp add: js_or_def truthy_def)
  show ?thesis
    using 1 close_modal_unvetoed[OF 2, of m silent] by (simp add: Let_def)
qed

theorem close_misuse_witness:
  "\<not> truthy (activeModal (demo False)) \<and> close_modal None False (demo False) = demo False \<and>
   map_of (modals (demo False)) ''promo'' = Some promo_modal \<and>
   \<not> is_open (demo False) ''promo'' \<and>
   timers (close_modal (Some ''promo'') False (demo False)) =
     [(300, SettleTask ''promo'' promo_modal False)] \<and>
   trace (close_modal (Some ''promo'') False (demo False)) = [BeforeClose ''promo'']"
  using close_misuse[of "demo False" False "''promo''" promo_modal] demo_promo_facts
  by (simp add: Let_def)

section \<open>Closing in two phases, and silent closes\<close>

lemma close_modal_silent_trace [simp]: "trace (close_modal i True s) = trace s"
  by (cases i True s rule: close_modal_cases) simp_all

lemma open_modal_trace:
  "trace (open_modal i d s) = trace s \<or> trace (open_modal i d s) = trace s @ [OnOpen i d]"
  by (simp add: open_modal_def prim_defs Let_def split: option.splits)

lemma process_queue_fields [simp]:
  "now (process_queue s) = now s"
  "modals (process_queue s) = modals s"
  "sequential (process_queue s) = sequential s"
  "bodyScrollLock (process_queue s) = bodyScrollLock s"
  by (simp_all add: process_queue_def split: list.splits)

lemma process_queue_trace:
  "\<exists>c. trace (process_queue s) = trace s @ c \<and> list_all is_onOpen c"
proof (cases "queue s")
  case Nil
  then show ?thesis by (simp add: process_queue_def)
next
  case (Cons p rest)
  obtain i d where p: "p = (i, d)" by (cases p)
  from open_modal_trace[of i d "s\<lparr>queue := rest\<rparr>"]
  have "trace (process_queue s) = trace s @ [] \<or> trace (process_queue s) = trace s @ [OnOpen i d]"
    by (simp add: process_queue_def Cons p)
  then show ?thesis
  proof
    assume "trace (process_queue s) = trace s @ []"
    then show ?thesis by (intro exI[of _ "[]"]) simp
  next
    assume "trace (process_queue s) = trace s @ [OnOpen i d]"
    then show ?thesis by (intro exI[of _ "[OnOpen i d]"]) simp
  qed
qed

lemma run_task_now [simp]: "now (run_task t s) = now s"
  by (cases t) (simp_all add: settle_def prim_defs)


lemma count_list_append [simp]: "count_list (xs @ ys) x = count_list xs x + count_list ys x"
  by (induction xs) simp_all

lemma count_list_onOpen: "list_all is_onOpen c \<Longrightarrow> count_list c (OnClose k) = 0"
  by (induction c) auto

lemma settle_onClose_once:
  assumes "onClose (options m)"
  shows "count_list (trace (settle k m False s)) (OnClose k) = count_list (trace s) (OnClose k) + 1"
proof -
  obtain c where c: "trace (settle k m False s) = trace (settle_effects k m False s) @ c"
    "list_all is_onOpen c"
    using process_queue_trace[of "settle_effects k m False s"] by (auto simp add: settle_def)
  with assms show ?thesis by (simp add: count_list_onOpen)
qed

lemma settle_silent_trace:
  "\<exists>c. trace (settle i m True s) = trace s @ c \<and> list_all is_onOpen c"
  using process_queue_trace[of "settle_effects i m True s"] by (simp add: settle_def)

lemma open_modal_handoff:
  assumes "\<not> sequential s" "activeModal s = Some a" "a \<noteq> []" "a \<noteq> i"
    "map_of (modals s) a = Some ma" "map_of (modals s) i = Some m"
  shows "open_modal i d s =
     s\<lparr>elems := (let e1 = (elems s)(element ma := (elems s (element ma))\<lparr>cls_show := False\<rparr>)
                  in e1(element m := (e1 (element m))\<lparr>cls_active := True, style_display := ''flex''\<rparr>)),
       body_overflow := (if bodyScrollLock s then ''hidden'' else body_overflow s),
       activeModal := Some i,
       timers := timers s @ [(now s + 300, SettleTask a ma True), (now s + 10, ShowTask m)],
       trace := trace s @ (if onOpen (options m) then [OnOpen i d] else [])\<rparr>"
proof -
  have j: "js_or (Some a) (activeModal s) = Some a" using assms(3) by (simp add: js_or_def truthy_def)
  have c: "close_modal (Some a) True s = s\<lparr>elems := (elems s)(element ma := (elems s (element ma))\<lparr>cls_show := False\<rparr>),
       timers := timers s @ [(now s + 300, SettleTask a ma True)]\<rparr>"
    using close_modal_unvetoed[OF j assms(3,5), of True] by simp
  show ?thesis using assms
    by (simp add: open_modal_def truthy_def c prim_defs Let_def)
qed

lemma closeAll_fold:
  assumes "\<forall>(i, m) \<in> set xs. i \<noteq> [] \<and> map_of (modals s) i = Some m"
  shows "let s' = fold (\<lambda>(i, m) s'. close_modal (Some i) True s') xs s in
     timers s' = timers s @ map (\<lambda>(i, m). (now s + 300, SettleTask i m True)) xs \<and>
     modals s' = modals s \<and> now s' = now s"
  using assms
proof (induction xs arbitrary: s)
  case Nil
  then show ?case by simp
next
  case (Cons p xs)
  obtain i m where p: "p = (i, m)" by (cases p)
  have i: "i \<noteq> []" "map_of (modals s) i = Some m" using Cons.prems p by auto
  have j: "js_or (Some i) (activeModal s) = Some i" using i by (simp add: js_or_def truthy_def)
  let ?s1 = "close_modal (Some i) True s"
  have t1: "timers ?s1 = timers s @ [(now s + 300, SettleTask i m True)]"
    using close_modal_unvetoed[OF j i, of True] by simp
  have "\<forall>(i, m) \<in> set xs. i \<noteq> [] \<and> map_of (modals ?s1) i = Some m"
    using Cons.prems by simp
  from Cons.IH[OF this] t1 show ?case by (simp add: p Let_def)
qed

lemma closeAll_fold_trace:
  "trace (fold (\<lambda>(i, m) s'. close_modal (Some i) True s') xs s) = trace s"
  by (induction xs arbitrary: s) (auto)

lemma close_modal_timers_silent:
  "\<exists>new. timers (close_modal i True s) = timers s @ new \<and> list_all (\<lambda>(d, t). silent_settle t) new"
  by (cases i True s rule: close_modal_cases) auto

lemma closeAll_fold_timers:
  "\<exists>new. timers (fold (\<lambda>(i, m) s'. close_modal (Some i) True s') xs s) = timers s @ new \<and>
     list_all (\<lambda>(d, t). silent_settle t) new"
proof (induction xs arbitrary: s)
  case Nil
  then show ?case by simp
next
  case (Cons p xs)
  obtain i m where p: "p = (i, m)" by (cases p)
  obtain n1 where n1: "timers (close_modal (Some i) True s) = timers s @ n1"
    "list_all (\<lambda>(d, t). silent_settle t) n1"
    using close_modal_timers_silent by blast
  obtain n2 where n2: "timers (fold (\<lambda>(i, m) s'. close_modal (Some i) True s') xs (close_modal (Some i) True s))
      = timers (close_modal (Some i) True s) @ n2" "list_all (\<lambda>(d, t). silent_settle t) n2"
    using Cons.IH by blast
  show ?case
    by (rule exI[of _ "n1 @ n2"]) (simp add: p n1 n2)
qed

lemma promo_open_facts:
  "js_or (Some ''promo'') (activeModal promo_open) = Some ''promo''"
  "map_of (modals promo_open) ''promo'' = Some promo_modal"
  "beforeClose (options promo_modal) = Some True"
  "onClose (options promo_modal)"
  "activeModal promo_open = Some ''promo''"
  "now promo_open = 10"
  "timers promo_open = []"
  "body_overflow promo_open = ''hidden''"
  "trace promo_open = [OnOpen ''promo'' None]"
  "is_open promo_open ''promo''"
  "queue promo_open = []"
  by code_simp+

lemma login_open_facts:
  "\<not> sequential login_open"
  "activeModal login_open = Some ''login''"
  "map_of (modals login_open) ''login'' = Some login_modal"
  "map_of (modals login_open) ''promo'' = Some promo_modal"
  "now login_open = 10"
  "timers login_open = []"
  "trace login_open = []"
  "distinct (map fst (modals login_open))"
  "list_all (\<lambda>(i, m). i \<noteq> []) (modals login_open)"
  "length (modals login_open) = 5"
  "onOpen (options promo_modal)"
  "bodyScrollLock login_open"
  "body_overflow login_open = ''hidden''"
  "\<not> some_active (settle ''login'' login_modal False login_open)"
  by code_simp+



text \<open>
  \<^bold>\<open>C9.\<close> \<^verbatim>\<open>closeAll\<close> invokes no callback and empties the queue, and every timer it sets
  is the settle callback of a silent close: one for each registered modal when the ids
  are distinct and not empty. The settle callback of a silent close invokes no
  \<^verbatim>\<open>onClose\<close> and no \<^verbatim>\<open>beforeClose\<close> (all it can invoke is the \<^verbatim>\<open>onOpen\<close> of a queued
  modal). The hand-off inside \<^verbatim>\<open>open\<close> sets such a silent settle timer for the modal
  that was active and invokes nothing but the \<^verbatim>\<open>onOpen\<close> of the new one. A non-silent
  \<^verbatim>\<open>close\<close> that is not vetoed, on a modal with an \<^verbatim>\<open>onClose\<close>, sets one settle timer and
  does not invoke \<^verbatim>\<open>onClose\<close> itself; that timer's callback invokes \<^verbatim>\<open>onClose\<close> exactly
  once.
\<close>

theorem silent_close_suppresses_callbacks:
  fixes s :: "'d manager"
  shows "trace (closeAll s) = trace s \<and> queue (closeAll s) = [] \<and>
   (\<exists>new. timers (closeAll s) = timers s @ new \<and> list_all (\<lambda>(d, t). silent_settle t) new) \<and>
   (distinct (map fst (modals s)) \<and> list_all (\<lambda>(i, m). i \<noteq> []) (modals s) \<longrightarrow>
      timers (closeAll s) =
        timers s @ map (\<lambda>(i, m). (now s + 300, SettleTask i m True)) (modals s)) \<and>
   (\<exists>c. trace (settle i m True s) = trace s @ c \<and> list_all is_onOpen c) \<and>
   (\<not> sequential s \<and> activeModal s = Some a \<and> a \<noteq> [] \<and> a \<noteq> j \<and>
    map_of (modals s) a = Some ma \<and> map_of (modals s) j = Some mj \<longrightarrow>
      timers (open_modal j d s) =
        timers s @ [(now s + 300, SettleTask a ma True), (now s + 10, ShowTask mj)] \<and>
      trace (open_modal j d s) = trace s @ (if onOpen (options mj) then [OnOpen j d] else [])) \<and>
   (js_or i0 (activeModal s) = Some k \<and> k \<noteq> [] \<and> map_of (modals s) k = Some mk \<and>
    beforeClose (options mk) \<noteq> Some False \<and> onClose (options mk) \<longrightarrow>
      timers (close_modal i0 False s) = timers s @ [(now s + 300, SettleTask k mk False)] \<and>
      count_list (trace (close_modal i0 False s)) (OnClose k) = count_list (trace s) (OnClose k) \<and>
      (\<forall>s' :: 'd manager. count_list (trace (settle k mk False s')) (OnClose k) =
              count_list (trace s') (OnClose k) + 1))"
proof -
  have 1: "trace (closeAll s) = trace s" "queue (closeAll s) = []"
    by (simp_all add: closeAll_def closeAll_fold_trace)
  have 2: "\<exists>new. timers (closeAll s) = timers s @ new \<and> list_all (\<lambda>(d, t). silent_settle t) new"
    using closeAll_fold_timers[of "modals s" s] by (simp add: closeAll_def)
  have 3: "timers (closeAll s) =
        timers s @ map (\<lambda>(i, m). (now s + 300, SettleTask i m True)) (modals s)"
    if "distinct (map fst (modals s))" "list_all (\<lambda>(i, m). i \<noteq> []) (modals s)"
  proof -
    have "\<forall>(i, m) \<in> set (modals s). i \<noteq> [] \<and> map_of (modals s) i = Some m"
      using that by (auto simp add: list_all_iff)
    from closeAll_fold[OF this] show ?thesis by (simp add: closeAll_def Let_def)
  qed
  have 5: "timers (open_modal j d s) =
        timers s @ [(now s + 300, SettleTask a ma True), (now s + 10, ShowTask mj)] \<and>
      trace (open_modal j d s) = trace s @ (if onOpen (options mj) then [OnOpen j d] else [])"
    if "\<not> sequential s" "activeModal s = Some a" "a \<noteq> []" "a \<noteq> j"
      "map_of (modals s) a = Some ma" "map_of (modals s) j = Some mj"
    using open_modal_handoff[OF that, of d] by simp
  have 6: "timers (close_modal i0 False s) = timers s @ [(now s + 300, SettleTask k mk False)] \<and>
      count_list (trace (close_modal i0 False s)) (OnClose k) = count_list (trace s) (OnClose k)"
    if "js_or i0 (activeModal s) = Some k" "k \<noteq> []" "map_of (modals s) k = Some mk"
      "beforeClose (options mk) \<noteq> Some False"
    using close_modal_unvetoed[OF that(1-3), of False] that(4) by simp
  from 1 2 3 settle_silent_trace[of i m s] 5 6 settle_onClose_once[of mk k]
  show ?thesis by blast
qed

theorem silent_close_suppresses_callbacks_witness:
  "trace (closeAll login_open) = [] \<and> queue (closeAll login_open) = [] \<and>
   length (timers (closeAll login_open)) = 5 \<and>
   timers (open_modal ''promo'' None login_open) =
     [(310, SettleTask ''login'' login_modal True), (20, ShowTask promo_modal)] \<and>
   trace (open_modal ''promo'' None login_open) = [OnOpen ''promo'' None] \<and>
   timers (close_modal (Some ''promo'') False promo_open) =
     [(310, SettleTask ''promo'' promo_modal False)] \<and>
   count_list (trace (settle ''promo'' promo_modal False promo_open)) (OnClose ''promo'') = 1"
proof -
  note a = silent_close_suppresses_callbacks[where s = login_open and a = "''login''"
      and j = "''promo''" and ma = login_modal and mj = promo_modal and d = None]
  note b = silent_close_suppresses_callbacks[where s = promo_open and ?i0.0 = "Some ''promo''"
      and k = "''promo''" and mk = promo_modal]
  have 1: "trace (closeAll login_open) = []" "queue (closeAll login_open) = []"
    "length (timers (closeAll login_open)) = 5"
    using a by (simp_all add: login_open_facts)
  have 2: "timers (open_modal ''promo'' None login_open) =
     [(310, SettleTask ''login'' login_modal True), (20, ShowTask promo_modal)]"
    "trace (open_modal ''promo'' None login_open) = [OnOpen ''promo'' None]"
    using a by (simp_all add: login_open_facts)
  have 3: "timers (close_modal (Some ''promo'') False promo_open) =
     [(310, SettleTask ''promo'' promo_modal False)]"
    using b by (simp add: promo_open_facts(1-4,6,7))
  have "\<forall>s' :: string option manager.
          count_list (trace (settle ''promo'' promo_modal False s')) (OnClose ''promo'') =
          count_list (trace s') (OnClose ''promo'') + 1"
    using b by (simp add: promo_open_facts(1-4,6,7))
  then have 4: "count_list (trace (settle ''promo'' promo_modal False promo_open)) (OnClose ''promo'') = 1"
    by (simp add: promo_open_facts)
  from 1 2 3 4 show ?thesis by simp
qed

section \<open>The queue is served first in, first out\<close>

lemma js_or_Some: "i \<noteq> [] \<Longrightarrow> js_or (Some i) a = Some i"
  by (simp add: js_or_def truthy_def)






section \<open>The stored overlay option\<close>

lemma forget_modal_simps [simp]:
  "element (forget_modal m) = element m"
  "overlay (forget_modal m) = overlay m"
  "closeBtn (forget_modal m) = closeBtn m"
  "onOpen (options (forget_modal m)) = onOpen (options m)"
  "onClose (options (forget_modal m)) = onClose (options m)"
  "beforeClose (options (forget_modal m)) = beforeClose (options m)"
  "forget_modal (forget_modal m) = forget_modal m"
  by (simp_all add: forget_modal_def)

lemma forget_task_idem [simp]: "forget_task (forget_task t) = forget_task t"
  by (cases t) simp_all

lemma forget_fields [simp]:
  "activeModal (forget s) = activeModal s"
  "queue (forget s) = queue s"
  "closeOnOverlay (forget s) = closeOnOverlay s"
  "closeOnEsc (forget s) = closeOnEsc s"
  "bodyScrollLock (forget s) = bodyScrollLock s"
  "sequential (forget s) = sequential s"
  "elems (forget s) = elems s"
  "body_overflow (forget s) = body_overflow s"
  "query_overlay (forget s) = query_overlay s"
  "query_closeBtn (forget s) = query_closeBtn s"
  "now (forget s) = now s"
  "listeners (forget s) = listeners s"
  "trace (forget s) = trace s"
  "modals (forget s) = map (\<lambda>(i, m). (i, forget_modal m)) (modals s)"
  "timers (forget s) = map (\<lambda>(d, t). (d, forget_task t)) (timers s)"
  by (simp_all add: forget_def)

lemma forget_idem [simp]: "forget (forget s) = forget s"
  by (simp add: forget_def comp_def case_prod_beta)

lemma map_of_forget:
  "map_of (map (\<lambda>(i, m). (i, forget_modal m)) ms) i = map_option forget_modal (map_of ms i)"
  by (induction ms) auto

lemma forget_prims:
  "forget (upd_el e f s) = upd_el e f (forget s)"
  "forget (setTimeout t d s) = setTimeout (forget_task t) d (forget s)"
  "forget (invoke c s) = invoke c (forget s)"
  "forget (addListener tg h s) = addListener tg h (forget s)"
  by (simp_all add: forget_def prim_defs)

lemma forget_updates:
  "forget (s\<lparr>queue := q\<rparr>) = (forget s)\<lparr>queue := q\<rparr>"
  "forget (s\<lparr>activeModal := a\<rparr>) = (forget s)\<lparr>activeModal := a\<rparr>"
  "forget (s\<lparr>body_overflow := b\<rparr>) = (forget s)\<lparr>body_overflow := b\<rparr>"
  "forget (s\<lparr>now := n\<rparr>) = (forget s)\<lparr>now := n\<rparr>"
  by (simp_all add: forget_def)

lemma forget_close_modal: "forget (close_modal i silent s) = close_modal i silent (forget s)"
proof (cases "js_or i (activeModal s)")
  case None
  then show ?thesis by (simp add: close_modal_def)
next
  case (Some modalId)
  show ?thesis
  proof (cases "map_of (modals s) modalId")
    case None
    with Some show ?thesis by (simp add: close_modal_def map_of_forget)
  next
    case m: (Some m)
    with Some show ?thesis
      by (simp add: close_modal_def map_of_forget forget_prims Let_def)
  qed
qed

lemma forget_open_modal: "forget (open_modal i d s) = open_modal i d (forget s)"
proof (cases "map_of (modals s) i")
  case None
  then show ?thesis by (simp add: open_modal_def map_of_forget forget_updates)
next
  case (Some m)
  have b: "bodyScrollLock (upd_el e f z) = bodyScrollLock z" for e f and z :: "'a manager"
    by (simp add: upd_el_def)
  show ?thesis
    using Some
    by (simp add: open_modal_def map_of_forget forget_updates forget_prims forget_close_modal
        Let_def b)
qed

lemma hasOtherActiveModals_iff:
  "hasOtherActiveModals s = (\<exists>p \<in> set (modals s). cls_active (elems s (element (snd p))))"
  by (force simp add: hasOtherActiveModals_def filter_empty_conv)

lemma hasOtherActiveModals_forget: "hasOtherActiveModals (forget s) = hasOtherActiveModals s"
  by (force simp add: hasOtherActiveModals_iff)

lemma forget_settle_effects:
  "forget (settle_effects i m silent s) = settle_effects i (forget_modal m) silent (forget s)"
proof -
  have b: "bodyScrollLock (upd_el e f z) = bodyScrollLock z"
    "activeModal (upd_el e f z) = activeModal z" for e f and z :: "'a manager"
    by (simp_all add: upd_el_def)
  have h: "hasOtherActiveModals (upd_el e f (forget s)) = hasOtherActiveModals (upd_el e f s)" for e f
    using hasOtherActiveModals_forget[of "upd_el e f s"] by (simp add: forget_prims)
  show ?thesis
    by (simp add: settle_effects_def Let_def forget_prims forget_updates b h)
qed

lemma forget_process_queue: "forget (process_queue s) = process_queue (forget s)"
  by (simp add: process_queue_def forget_open_modal forget_updates split: list.splits)

lemma forget_run_task: "forget (run_task t s) = run_task (forget_task t) (forget s)"
  by (cases t) (simp_all add: forget_prims settle_def forget_process_queue forget_settle_effects)

lemma next_timer_map:
  "next_timer (map (\<lambda>(d, t). (d, f t)) ts) =
     map_option (\<lambda>((d, t), rest). ((d, f t), map (\<lambda>(d, t). (d, f t)) rest)) (next_timer ts)"
  by (induction ts) (auto split: option.splits)

lemma forget_fire: "forget (fire s) = fire (forget s)"
proof (cases "next_timer (timers s)")
  case None
  then show ?thesis by (simp add: fire_def next_timer_map)
next
  case (Some a)
  obtain due t rest where a: "a = ((due, t), rest)" by (cases a) auto
  have u: "forget (s\<lparr>timers := rest, now := n\<rparr>) =
        (forget s)\<lparr>timers := map (\<lambda>(d, t). (d, forget_task t)) rest, now := n\<rparr>" for n
    by (simp add: forget_def)
  from Some a show ?thesis by (simp add: fire_def next_timer_map forget_run_task u)
qed

lemma forget_fold:
  assumes "\<And>x s. forget (f x s) = f x (forget s)"
  shows "forget (fold f xs s) = fold f xs (forget s)"
  by (induction xs arbitrary: s) (simp_all add: assms)

lemma fold_close_forget:
  "fold (\<lambda>(i, m) s'. close_modal (Some i) True s') (map (\<lambda>(i, m). (i, forget_modal m)) xs) z =
   fold (\<lambda>(i, m) s'. close_modal (Some i) True s') xs z"
  by (induction xs arbitrary: z) auto

lemma forget_fold_close:
  "forget (fold (\<lambda>(i, m) s'. close_modal (Some i) True s') xs s) =
   fold (\<lambda>(i, m) s'. close_modal (Some i) True s') xs (forget s)"
  by (rule forget_fold) (auto simp add: forget_close_modal)

lemma forget_closeAll: "forget (closeAll s) = closeAll (forget s)"
  unfolding closeAll_def forget_updates forget_fold_close forget_fields fold_close_forget ..

lemma forget_run_handler: "forget (run_handler tgt key null h s) = run_handler tgt key null h (forget s)"
  by (cases h) (simp_all add: forget_close_modal forget_open_modal)

lemma forget_dispatch_click: "forget (dispatch_click null path s) = dispatch_click null path (forget s)"
  unfolding dispatch_click_def Let_def forget_fields
  by (rule forget_fold) (auto simp add: forget_close_modal forget_open_modal split: handler.splits)

lemma forget_dispatch_keydown: "forget (dispatch_keydown null key s) = dispatch_keydown null key (forget s)"
  unfolding dispatch_keydown_def Let_def forget_fields
  by (rule forget_fold) (auto simp add: forget_close_modal forget_open_modal split: handler.splits)

lemma update_forget:
  "map (\<lambda>(i, m). (i, forget_modal m)) (AList.update k v ms) =
   AList.update k (forget_modal v) (map (\<lambda>(i, m). (i, forget_modal m)) ms)"
  by (induction ms) auto

lemma register_explicit:
  "register i el opts s =
     s\<lparr>modals := AList.update i (new_record el opts s) (modals s),
       listeners := listeners s @ new_listeners i el s\<rparr>"
  by (simp add: register_def new_record_def new_listeners_def Let_def prim_defs split: option.splits)

lemma forget_register:
  "forget (register i el opts s) = forget (register i el (opts\<lparr>arg_closeOnOverlay := c\<rparr>) (forget s))"
proof -
  have m: "forget (z\<lparr>modals := ms, listeners := ls\<rparr>) =
           (forget z)\<lparr>modals := map (\<lambda>(i, m). (i, forget_modal m)) ms, listeners := ls\<rparr>"
    for ms ls and z :: "'a manager"
    by (simp add: forget_def)
  have r: "forget_modal (new_record el (opts\<lparr>arg_closeOnOverlay := c\<rparr>) (forget s)) =
           forget_modal (new_record el opts s)"
    by (simp add: new_record_def forget_modal_def)
  have l: "new_listeners i el (forget s) = new_listeners i el s"
    by (simp add: new_listeners_def split: option.splits)
  have f: "map (\<lambda>(i, m). (i, forget_modal m)) (map (\<lambda>(i, m). (i, forget_modal m)) ms) =
           map (\<lambda>(i, m). (i, forget_modal m)) ms" for ms
    by (induction ms) auto
  show ?thesis
    by (simp only: register_explicit m update_forget r l f forget_fields forget_idem)
qed

lemma forget_step: "forget (step null e s) = forget (step null e (forget s))"
proof (cases e)
  case (Register i el opts)
  then show ?thesis using forget_register[of i el opts s "arg_closeOnOverlay opts"] by simp
qed (simp_all add: forget_open_modal forget_close_modal forget_closeAll forget_dispatch_click
      forget_dispatch_keydown forget_fire forget_updates)

lemma forget_step_event: "forget (step null (forget_event e) s) = forget (step null e s)"
proof (cases e)
  case (Register i el opts)
  have "forget (register i el (opts\<lparr>arg_closeOnOverlay := None\<rparr>) s) =
        forget (register i el (opts\<lparr>arg_closeOnOverlay := None\<rparr>) (forget s))"
    using forget_register[of i el "opts\<lparr>arg_closeOnOverlay := None\<rparr>" s None] by simp
  also have "\<dots> = forget (register i el opts s)"
    using forget_register[of i el opts s None] by simp
  finally show ?thesis using Register by simp
qed simp_all

lemma forget_run_state: "forget (run null evs s) = forget (run null evs (forget s))"
proof (induction evs arbitrary: s)
  case Nil
  then show ?case by (simp add: run_def)
next
  case (Cons e evs)
  have "forget (run null (e # evs) s) = forget (run null evs (forget (step null e s)))"
    using Cons.IH[of "step null e s"] by (simp add: run_def)
  also have "\<dots> = forget (run null evs (forget (step null e (forget s))))"
    by (simp add: forget_step[of null e s])
  also have "\<dots> = forget (run null evs (step null e (forget s)))"
    using Cons.IH[of "step null e (forget s)"] by simp
  finally show ?case by (simp add: run_def)
qed

lemma forget_run_events: "forget (run null (map forget_event evs) s) = forget (run null evs s)"
proof (induction evs arbitrary: s)
  case Nil
  then show ?case by simp
next
  case (Cons e evs)
  have "forget (run null (map forget_event (e # evs)) s) =
        forget (run null evs (step null (forget_event e) s))"
    using Cons.IH[of "step null (forget_event e) s"] by (simp add: run_def)
  also have "\<dots> = forget (run null evs (forget (step null (forget_event e) s)))"
    by (rule forget_run_state)
  also have "\<dots> = forget (run null evs (forget (step null e s)))"
    by (simp add: forget_step_event)
  also have "\<dots> = forget (run null evs (step null e s))"
    by (rule forget_run_state[symmetric])
  finally show ?case by (simp add: run_def)
qed

lemma forget_observe:
  "forget a = forget b \<Longrightarrow> (\<And>z. f (forget z) = f z) \<Longrightarrow> f a = f b"
  by metis

text \<open>
  \<^bold>\<open>C10.\<close> Nothing reads the \<^verbatim>\<open>closeOnOverlay\<close> that \<^verbatim>\<open>register\<close> stores in a record. Run
  any events from a state, and run the same events with the \<^verbatim>\<open>closeOnOverlay\<close> property
  removed from the options of every registration, from the state with every stored
  value overwritten: the two final states differ at most in the stored values, so
  they have the same trace of callbacks, class lists and styles, \<open>activeModal\<close>, queue,
  body overflow and listeners. The listeners that \<^verbatim>\<open>register\<close> adds are given by the
  close button and overlay found in the element and by the manager's own
  \<^verbatim>\<open>closeOnOverlay\<close>; registering with another value of the per-modal option changes
  only the stored value.
\<close>

theorem stored_closeOnOverlay_never_read:
  fixes s :: "'d manager"
  shows "forget (run null (map forget_event evs) (forget s)) = forget (run null evs s) \<and>
         trace (run null (map forget_event evs) (forget s)) = trace (run null evs s) \<and>
         elems (run null (map forget_event evs) (forget s)) = elems (run null evs s) \<and>
         activeModal (run null (map forget_event evs) (forget s)) = activeModal (run null evs s) \<and>
         queue (run null (map forget_event evs) (forget s)) = queue (run null evs s) \<and>
         body_overflow (run null (map forget_event evs) (forget s)) =
           body_overflow (run null evs s) \<and>
         listeners (run null (map forget_event evs) (forget s)) = listeners (run null evs s) \<and>
         listeners (register i el opts s) = listeners s @ new_listeners i el s \<and>
         forget (register i el (opts\<lparr>arg_closeOnOverlay := c\<rparr>) s) = forget (register i el opts s)"
proof -
  have 1: "forget (run null (map forget_event evs) (forget s)) = forget (run null evs s)"
    using forget_run_state[of null "map forget_event evs" s] forget_run_events[of null evs s]
    by simp
  have 2: "listeners (register i el opts s) = listeners s @ new_listeners i el s"
    by (simp add: register_explicit)
  have 3: "forget (register i el (opts\<lparr>arg_closeOnOverlay := c\<rparr>) s) = forget (register i el opts s)"
    using forget_register[of i el opts s c] forget_register[of i el "opts\<lparr>arg_closeOnOverlay := c\<rparr>" s c]
    by simp
  note o = forget_observe[OF 1]
  have 4: "trace (run null (map forget_event evs) (forget s)) = trace (run null evs s)"
    by (rule o) simp
  have 5: "elems (run null (map forget_event evs) (forget s)) = elems (run null evs s)"
    by (rule o) simp
  have 6: "activeModal (run null (map forget_event evs) (forget s)) = activeModal (run null evs s)"
    by (rule o) simp
  have 7: "queue (run null (map forget_event evs) (forget s)) = queue (run null evs s)"
    by (rule o) simp
  have 8: "body_overflow (run null (map forget_event evs) (forget s)) =
           body_overflow (run null evs s)"
    by (rule o) simp
  have 9: "listeners (run null (map forget_event evs) (forget s)) = listeners (run null evs s)"
    by (rule o) simp
  from 1 2 3 4 5 6 7 8 9 show ?thesis by (intro conjI)
qed

lemma demo_base_facts:
  "closeOnOverlay demo_base"
  "arg_closeOnOverlay demo_options = Some False"
  "new_listeners ''extra'' 1 demo_base =
     [(Element 21, CloseBtnClick ''extra''), (Element 11, OverlayClick ''extra'' 11)]"
  by code_simp+

theorem stored_closeOnOverlay_never_read_witness:
  "closeOnOverlay demo_base \<and> arg_closeOnOverlay demo_options = Some False \<and>
   listeners (register ''extra'' 1 demo_options demo_base) =
     listeners demo_base @
       [(Element 21, CloseBtnClick ''extra''), (Element 11, OverlayClick ''extra'' 11)] \<and>
   trace (run None (map forget_event [Register ''extra'' 1 demo_options, Open ''extra'' None,
            Click [11], Fire, Fire]) (forget demo_base)) =
     trace (run None [Register ''extra'' 1 demo_options, Open ''extra'' None, Click [11], Fire, Fire]
            demo_base)"
proof -
  note a = stored_closeOnOverlay_never_read[where s = demo_base and i = "''extra''" and el = 1
      and opts = demo_options and null = None
      and evs = "[Register ''extra'' 1 demo_options, Open ''extra'' None, Click [11], Fire, Fire]"]
  have 1: "listeners (register ''extra'' 1 demo_options demo_base) =
           listeners demo_base @ new_listeners ''extra'' 1 demo_base"
    by (rule a[THEN conjunct2, THEN conjunct2, THEN conjunct2, THEN conjunct2, THEN conjunct2,
          THEN conjunct2, THEN conjunct2, THEN conjunct1])
  have 2: "trace (run None (map forget_event [Register ''extra'' 1 demo_options, Open ''extra'' None,
            Click [11], Fire, Fire]) (forget demo_base)) =
     trace (run None [Register ''extra'' 1 demo_options, Open ''extra'' None, Click [11], Fire, Fire]
            demo_base)"
    by (rule a[THEN conjunct2, THEN conjunct1])
  show ?thesis
    unfolding 1 demo_base_facts(3) by (intro conjI demo_base_facts(1,2) 2 refl)
qed

section \<open>The scroll lock\<close>

lemma hasOtherActiveModals_some: "hasOtherActiveModals s = some_active s"
  by (force simp add: hasOtherActiveModals_iff some_active_def list_ex_iff)

lemma some_active_iff:
  "some_active s = (\<exists>p \<in> set (modals s). cls_active (elems s (element (snd p))))"
  by (force simp add: some_active_def list_ex_iff)

lemma close_modal_active [simp]:
  "cls_active (elems (close_modal i silent s) e) = cls_active (elems s e)"
  by (cases i silent s rule: close_modal_cases) simp_all

lemma close_modal_some_active [simp]: "some_active (close_modal i silent s) = some_active s"
  by (simp add: some_active_iff)

lemma settle_effects_body:
  "body_overflow (settle_effects i m silent s) =
     (if bodyScrollLock s \<and> \<not> some_active (settle_effects i m silent s) then []
      else body_overflow s)"
proof -
  have "some_active (settle_effects i m silent s) =
        hasOtherActiveModals (upd_el (element m) (\<lambda>d. d\<lparr>cls_active := False, style_display := []\<rparr>) s)"
    by (simp add: hasOtherActiveModals_some some_active_iff prim_defs)
  then show ?thesis by (simp add: settle_effects_def Let_def prim_defs)
qed

lemma settle_effects_some_active:
  "some_active (settle_effects i m silent s) \<Longrightarrow> some_active s"
  by (auto simp add: some_active_iff split: if_splits)

lemma open_modal_opens:
  assumes "\<not> (sequential s \<and> truthy (activeModal s))" "map_of (modals s) i = Some m"
  shows "activeModal (open_modal i d s) = Some i"
    and "body_overflow (open_modal i d s) = (if bodyScrollLock s then ''hidden'' else body_overflow s)"
    and "cls_active (elems (open_modal i d s) e) = (e = element m \<or> cls_active (elems s e))"
    and "queue (open_modal i d s) = queue s"
  using assms by (auto simp add: open_modal_def Let_def prim_defs)

lemma open_modal_lock:
  assumes "bodyScrollLock s" "(body_overflow s = []) = (\<not> some_active s)"
  shows "(body_overflow (open_modal i d s) = []) = (\<not> some_active (open_modal i d s))"
proof (cases "\<not> (sequential s \<and> truthy (activeModal s)) \<and> map_of (modals s) i \<noteq> None")
  case True
  then obtain m where m: "map_of (modals s) i = Some m" by auto
  from True have c: "\<not> (sequential s \<and> truthy (activeModal s))" by simp
  have "(i, m) \<in> set (modals (open_modal i d s))" using m by (simp add: map_of_SomeD)
  moreover have "cls_active (elems (open_modal i d s) (element m))"
    by (simp add: open_modal_opens(3)[OF c m])
  ultimately have "some_active (open_modal i d s)" by (force simp add: some_active_iff)
  with assms(1) show ?thesis by (simp add: open_modal_opens(2)[OF c m])
next
  case False
  then have "open_modal i d s = s\<lparr>queue := queue s @ [(i, d)]\<rparr> \<or> open_modal i d s = s"
    by (auto simp add: open_modal_def)
  with assms(2) show ?thesis by (auto simp add: some_active_iff)
qed

lemma settle_lock:
  fixes s :: "'d manager"
  assumes "bodyScrollLock s" and "some_active s \<longrightarrow> body_overflow s = ''hidden''"
  shows "(body_overflow (settle i m silent s) = []) = (\<not> some_active (settle i m silent s))"
proof -
  let ?x = "settle_effects i m silent s"
  have x: "(body_overflow ?x = []) = (\<not> some_active ?x)"
    using assms settle_effects_some_active[of i m silent s] by (auto simp add: settle_effects_body)
  show ?thesis
  proof (cases "queue ?x")
    case Nil
    with x show ?thesis by (simp add: settle_def process_queue_def)
  next
    case (Cons p rest)
    obtain n d where p: "p = (n, d)" by (cases p)
    let ?y = "?x\<lparr>queue := rest\<rparr>"
    have "bodyScrollLock ?y" "(body_overflow ?y = []) = (\<not> some_active ?y)"
      using assms(1) x by (simp_all add: some_active_iff)
    from open_modal_lock[OF this] Cons p show ?thesis
      by (simp add: settle_def process_queue_def)
  qed
qed

lemma settle_no_queue: "queue s = [] \<Longrightarrow> settle i m silent s = settle_effects i m silent s"
  by (simp add: settle_def process_queue_def)

lemma settle_effects_active [simp]:
  "cls_active (elems (settle_effects i m silent s) e) = (e \<noteq> element m \<and> cls_active (elems s e))"
  by simp

lemma is_open_iff: "map_of (modals s) i = Some m \<Longrightarrow> is_open s i = cls_active (elems s (element m))"
  by (simp add: is_open_def)

lemma some_activeI:
  "(i, m) \<in> set (modals s) \<Longrightarrow> cls_active (elems s (element m)) \<Longrightarrow> some_active s"
  by (force simp add: some_active_iff)

lemma scroll_lock_scenario:
  fixes s0 :: "'d manager" and null dX dY :: 'd
  assumes ns: "\<not> sequential s0" and bsl: "bodyScrollLock s0" and idle: "idle s0"
    and mX: "map_of (modals s0) X = Some mX" and mY: "map_of (modals s0) Y = Some mY"
    and ne: "X \<noteq> []" "Y \<noteq> []" "X \<noteq> Y" and el: "element mX \<noteq> element mY"
    and nv: "beforeClose (options mX) \<noteq> Some False" "beforeClose (options mY) \<noteq> Some False"
  defines "s1 \<equiv> run null [Open X dX, Open Y dY, Close (Some X) False, Fire, Fire, Fire, Fire] s0"
  defines "s2 \<equiv> run null [Close (Some Y) False, Fire] s1"
  shows "body_overflow s1 = ''hidden'' \<and> is_open s1 Y \<and> \<not> is_open s1 X \<and> timers s1 = [] \<and>
         body_overflow s2 = [] \<and> \<not> some_active s2 \<and> timers s2 = []"
proof -
  let ?n = "now s0"
  let ?SX = "(?n + 10, ShowTask mX)" and ?SY = "(?n + 10, ShowTask mY)"
  let ?TX = "(?n + 300, SettleTask X mX True)" and ?UX = "(?n + 300, SettleTask X mX False)"
  have i0: "\<not> truthy (activeModal s0)" "queue s0 = []" "timers s0 = []"
    using idle by (simp_all add: idle_def truthy_def)
  have closed0: "\<not> cls_active (elems s0 (element (snd p)))" if "p \<in> set (modals s0)" for p
    using idle that by (auto simp add: idle_def)
  \<comment> \<open>open X\<close>
  define a where "a = open_modal X dX s0"
  have a: "activeModal a = Some X" "queue a = []" "timers a = [?SX]" "modals a = modals s0"
    "\<not> sequential a" "bodyScrollLock a" "now a = ?n" "body_overflow a = ''hidden''"
    "\<And>e. cls_active (elems a e) = (e = element mX \<or> cls_active (elems s0 e))"
    unfolding a_def using ns bsl i0 by (simp_all add: open_modal_plain[OF i0(1) mX])
  \<comment> \<open>open Y: X is handed off\<close>
  define b where "b = open_modal Y dY a"
  have mXa: "map_of (modals a) X = Some mX" and mYa: "map_of (modals a) Y = Some mY"
    using mX mY a(4) by simp_all
  have b: "activeModal b = Some Y" "queue b = []" "timers b = [?SX, ?TX, ?SY]" "modals b = modals s0"
    "\<not> sequential b" "bodyScrollLock b" "now b = ?n" "body_overflow b = ''hidden''"
    "\<And>e. cls_active (elems b e) = (e = element mY \<or> e = element mX \<or> cls_active (elems s0 e))"
    unfolding b_def using a el
    by (auto simp add: open_modal_handoff[OF a(5) a(1) ne(1) ne(3) mXa mYa] Let_def)
  \<comment> \<open>close X\<close>
  define c where "c = close_modal (Some X) False b"
  have mXb: "map_of (modals b) X = Some mX" using mX b(4) by simp
  have c: "activeModal c = Some Y" "queue c = []" "timers c = [?SX, ?TX, ?SY, ?UX]"
    "modals c = modals s0" "\<not> sequential c" "bodyScrollLock c" "now c = ?n"
    "body_overflow c = ''hidden''"
    "\<And>e. cls_active (elems c e) = (e = element mY \<or> e = element mX \<or> cls_active (elems s0 e))"
    unfolding c_def using b nv(1)
    by (simp_all add: close_modal_unvetoed[OF js_or_Some[OF ne(1)] ne(1) mXb])
  \<comment> \<open>the two show timers\<close>
  define d1 where "d1 = fire c"
  have d1: "activeModal d1 = Some Y" "queue d1 = []" "timers d1 = [?TX, ?SY, ?UX]"
    "modals d1 = modals s0" "\<not> sequential d1" "bodyScrollLock d1" "now d1 = ?n + 10"
    "body_overflow d1 = ''hidden''"
    "\<And>e. cls_active (elems d1 e) = (e = element mY \<or> e = element mX \<or> cls_active (elems s0 e))"
    unfolding d1_def using c by (simp_all add: fire_def prim_defs)
  define d2 where "d2 = fire d1"
  have d2: "activeModal d2 = Some Y" "queue d2 = []" "timers d2 = [?TX, ?UX]"
    "modals d2 = modals s0" "\<not> sequential d2" "bodyScrollLock d2" "now d2 = ?n + 10"
    "body_overflow d2 = ''hidden''"
    "\<And>e. cls_active (elems d2 e) = (e = element mY \<or> e = element mX \<or> cls_active (elems s0 e))"
    unfolding d2_def using d1 by (simp_all add: fire_def prim_defs)
  \<comment> \<open>the two settle timers of X\<close>
  have Yin: "(Y, mY) \<in> set (modals s0)" using mY by (rule map_of_SomeD)
  define g3 where "g3 = d2\<lparr>timers := [?UX], now := max (now d2) (?n + 300)\<rparr>"
  define d3 where "d3 = fire d2"
  have d3eq: "d3 = settle_effects X mX True g3"
    unfolding d3_def g3_def using d2 by (simp add: fire_def settle_no_queue)
  have g3: "activeModal g3 = Some Y" "queue g3 = []" "modals g3 = modals s0" "\<not> sequential g3"
    "bodyScrollLock g3" "now g3 = ?n + 300" "body_overflow g3 = ''hidden''" "timers g3 = [?UX]"
    "\<And>e. cls_active (elems g3 e) = (e = element mY \<or> e = element mX \<or> cls_active (elems s0 e))"
    by (simp_all add: g3_def d2)
  have sa3: "some_active (settle_effects X mX True g3)"
    by (rule some_activeI[of Y mY]) (use Yin g3 el in simp_all)
  have d3: "activeModal d3 = Some Y" "queue d3 = []" "timers d3 = [?UX]"
    "modals d3 = modals s0" "\<not> sequential d3" "bodyScrollLock d3" "now d3 = ?n + 300"
    "body_overflow d3 = ''hidden''"
    "\<And>e. cls_active (elems d3 e) = (e = element mY \<or> (e \<noteq> element mX \<and> cls_active (elems s0 e)))"
    unfolding d3eq using sa3 g3 ne el
    by (simp_all add: settle_effects_body)
  define g4 where "g4 = d3\<lparr>timers := [], now := max (now d3) (?n + 300)\<rparr>"
  define d4 where "d4 = fire d3"
  have d4eq: "d4 = settle_effects X mX False g4"
    unfolding d4_def g4_def using d3 by (simp add: fire_def settle_no_queue)
  have g4: "activeModal g4 = Some Y" "queue g4 = []" "modals g4 = modals s0" "\<not> sequential g4"
    "bodyScrollLock g4" "now g4 = ?n + 300" "body_overflow g4 = ''hidden''" "timers g4 = []"
    "\<And>e. cls_active (elems g4 e) = (e = element mY \<or> (e \<noteq> element mX \<and> cls_active (elems s0 e)))"
    by (simp_all add: g4_def d3)
  have sa4: "some_active (settle_effects X mX False g4)"
    by (rule some_activeI[of Y mY]) (use Yin g4 el in simp_all)
  have d4: "activeModal d4 = Some Y" "queue d4 = []" "timers d4 = []"
    "modals d4 = modals s0" "\<not> sequential d4" "bodyScrollLock d4" "now d4 = ?n + 300"
    "body_overflow d4 = ''hidden''"
    "\<And>e. cls_active (elems d4 e) = (e = element mY \<or> (e \<noteq> element mX \<and> cls_active (elems s0 e)))"
    unfolding d4eq using sa4 g4 ne el
    by (simp_all add: settle_effects_body)
  have s1: "s1 = d4"
    unfolding s1_def run_def d4_def d3_def d2_def d1_def c_def b_def a_def by simp
  \<comment> \<open>close Y\<close>
  define k where "k = close_modal (Some Y) False d4"
  have mYd: "map_of (modals d4) Y = Some mY" using mY d4(4) by simp
  have k: "activeModal k = Some Y" "queue k = []" "timers k = [(?n + 600, SettleTask Y mY False)]"
    "modals k = modals s0" "bodyScrollLock k"
    "\<And>e. cls_active (elems k e) = (e = element mY \<or> (e \<noteq> element mX \<and> cls_active (elems s0 e)))"
    unfolding k_def using d4 nv(2)
    by (simp_all add: close_modal_unvetoed[OF js_or_Some[OF ne(2)] ne(2) mYd])
  define g5 where "g5 = k\<lparr>timers := [], now := max (now k) (?n + 600)\<rparr>"
  have s2: "s2 = settle_effects Y mY False g5"
    unfolding s2_def run_def s1 g5_def using k
    by (simp add: k_def[symmetric] fire_def settle_no_queue)
  have g5: "modals g5 = modals s0" "bodyScrollLock g5"
    "\<And>e. cls_active (elems g5 e) = (e = element mY \<or> (e \<noteq> element mX \<and> cls_active (elems s0 e)))"
    by (simp_all add: g5_def k)
  have na: "\<not> some_active s2"
    unfolding s2 some_active_iff using closed0 by (simp add: g5)
  have "body_overflow s2 = []"
    using na g5(2) unfolding s2 by (simp add: settle_effects_body)
  moreover have "timers s2 = []" unfolding s2 by (simp add: g5_def)
  moreover have "is_open s1 Y" "\<not> is_open s1 X"
    using d4 mX mY el by (simp_all add: s1 is_open_iff closed0[OF map_of_SomeD[OF mX], simplified])
  ultimately show ?thesis using na d4 by (simp add: s1)
qed
lemma lock_inv_close: "lock_inv s \<Longrightarrow> lock_inv (close_modal i silent s)"
  by (simp add: lock_inv_def)

lemma open_modal_some_active: "some_active s \<Longrightarrow> some_active (open_modal i d s)"
proof (cases "\<not> (sequential s \<and> truthy (activeModal s)) \<and> map_of (modals s) i \<noteq> None")
  case True
  assume a: "some_active s"
  from True obtain m where m: "map_of (modals s) i = Some m" by auto
  from True have c: "\<not> (sequential s \<and> truthy (activeModal s))" by simp
  from a show ?thesis by (force simp add: some_active_iff open_modal_opens(3)[OF c m])
next
  case False
  assume a: "some_active s"
  from False have "open_modal i d s = s\<lparr>queue := queue s @ [(i, d)]\<rparr> \<or> open_modal i d s = s"
    by (auto simp add: open_modal_def)
  with a show ?thesis by (force simp add: some_active_iff)
qed

lemma lock_inv_open: assumes "lock_inv s" shows "lock_inv (open_modal i d s)"
proof (cases "\<not> (sequential s \<and> truthy (activeModal s)) \<and> map_of (modals s) i \<noteq> None")
  case True
  then obtain m where m: "map_of (modals s) i = Some m" by auto
  from True have c: "\<not> (sequential s \<and> truthy (activeModal s))" by simp
  from assms show ?thesis by (simp add: lock_inv_def open_modal_opens(2)[OF c m])
next
  case False
  then have "open_modal i d s = s\<lparr>queue := queue s @ [(i, d)]\<rparr> \<or> open_modal i d s = s"
    by (auto simp add: open_modal_def)
  with assms show ?thesis by (force simp add: lock_inv_def some_active_iff)
qed

lemma lock_inv_settle_effects: assumes "lock_inv s" shows "lock_inv (settle_effects i m silent s)"
  using assms settle_effects_some_active[of i m silent s]
  by (auto simp add: lock_inv_def settle_effects_body)

lemma lock_inv_process_queue: assumes "lock_inv s" shows "lock_inv (process_queue s)"
proof -
  have "lock_inv (s\<lparr>queue := q\<rparr>)" for q
    using assms by (simp add: lock_inv_def some_active_iff)
  with assms show ?thesis
    by (auto simp add: process_queue_def lock_inv_open split: list.splits)
qed

lemma lock_inv_fire: assumes "lock_inv s" shows "lock_inv (fire s)"
proof (cases "next_timer (timers s)")
  case None
  with assms show ?thesis by (simp add: fire_def)
next
  case (Some a)
  obtain due t rest where a: "a = ((due, t), rest)" by (cases a) auto
  let ?s = "s\<lparr>timers := rest, now := max (now s) due\<rparr>"
  have inv: "lock_inv ?s" using assms by (simp add: lock_inv_def some_active_iff)
  have "lock_inv (run_task t ?s)"
  proof (cases t)
    case (ShowTask m)
    with inv show ?thesis by (force simp add: lock_inv_def some_active_iff prim_defs)
  next
    case (SettleTask i m silent)
    with inv show ?thesis
      by (simp add: settle_def lock_inv_process_queue lock_inv_settle_effects)
  qed
  with Some a show ?thesis by (simp add: fire_def)
qed

lemma lock_inv_fold:
  assumes "\<And>x s. lock_inv s \<Longrightarrow> lock_inv (f x s)"
  shows "lock_inv s \<Longrightarrow> lock_inv (fold f xs s)"
  by (induction xs arbitrary: s) (simp_all add: assms)

lemma lock_inv_closeAll: assumes "lock_inv s" shows "lock_inv (closeAll s)"
proof -
  have "lock_inv (fold (\<lambda>(i, m) s'. close_modal (Some i) True s') (modals s) s)"
    using assms by (rule lock_inv_fold[rotated]) (auto simp add: lock_inv_close)
  then show ?thesis by (simp add: closeAll_def lock_inv_def some_active_iff)
qed

lemma lock_inv_step:
  assumes "lock_inv s" "\<not> registers e"
  shows "lock_inv (step null e s)"
proof (cases e)
  case (Click path)
  show ?thesis unfolding Click step.simps dispatch_click_def Let_def
    by (rule lock_inv_fold[OF _ assms(1)])
      (auto simp add: lock_inv_close lock_inv_open split: handler.splits)
next
  case (KeyDown key)
  show ?thesis unfolding KeyDown step.simps dispatch_keydown_def Let_def
    by (rule lock_inv_fold[OF _ assms(1)])
      (auto simp add: lock_inv_close lock_inv_open split: handler.splits)
next
  case (Elapse d)
  with assms show ?thesis by (simp add: lock_inv_def some_active_iff)
qed (use assms in \<open>simp_all add: lock_inv_close lock_inv_open lock_inv_closeAll lock_inv_fire\<close>)

lemma lock_inv_run:
  "lock_inv s \<Longrightarrow> \<forall>e \<in> set evs. \<not> registers e \<Longrightarrow> lock_inv (run null evs s)"
  unfolding run_def by (induction evs arbitrary: s) (simp_all add: lock_inv_step)

lemma idle_lock_inv: "bodyScrollLock s \<Longrightarrow> idle s \<Longrightarrow> lock_inv s"
  by (auto simp add: lock_inv_def idle_def some_active_iff)

lemma reachable_settle_lock:
  fixes s0 :: "'d manager"
  assumes "bodyScrollLock s0" "idle s0" "\<forall>e \<in> set evs. \<not> registers e"
  shows "(body_overflow (settle i m silent (run null evs s0)) = []) =
         (\<not> some_active (settle i m silent (run null evs s0)))"
proof -
  have "lock_inv (run null evs s0)" using assms by (simp add: lock_inv_run idle_lock_inv)
  then show ?thesis by (simp add: lock_inv_def settle_lock)
qed


text \<open>
  \<^bold>\<open>C7.\<close> The scan of \<^verbatim>\<open>hasOtherActiveModals\<close> is over the whole registry: it answers
  whether some registered element carries the class \<^verbatim>\<open>active\<close>. With \<^verbatim>\<open>bodyScrollLock\<close>
  on, and the lock engaged whenever a registered modal is active, after the settle
  callback of any close the lock is released exactly when no registered modal carries
  the class \<^verbatim>\<open>active\<close>. That condition holds in every state reached from an idle
  manager by calls, clicks, key presses and timers. In a manager that is not sequential, starting idle: open \<open>X\<close>,
  open \<open>Y\<close>, close \<open>X\<close> and let the four timers run; then \<open>Y\<close> is still open, \<open>X\<close> is
  not, and the lock is engaged. Close \<open>Y\<close> and let its timer run; then no modal is
  active and the lock is released.
\<close>

theorem scroll_lock_by_registry_scan:
  fixes s s0 :: "'d manager" and null dX dY :: 'd
  shows "hasOtherActiveModals s = some_active s \<and>
    (bodyScrollLock s \<and> (some_active s \<longrightarrow> body_overflow s = ''hidden'') \<longrightarrow>
       (body_overflow (settle i m silent s) = []) = (\<not> some_active (settle i m silent s))) \<and>
    (bodyScrollLock s0 \<and> idle s0 \<and> (\<forall>e \<in> set evs. \<not> registers e) \<longrightarrow>
       (let r = run null evs s0
        in (some_active r \<longrightarrow> body_overflow r = ''hidden'') \<and>
           (body_overflow (settle i m silent r) = []) = (\<not> some_active (settle i m silent r)))) \<and>
    (\<not> sequential s0 \<and> bodyScrollLock s0 \<and> idle s0 \<and>
     map_of (modals s0) X = Some mX \<and> map_of (modals s0) Y = Some mY \<and>
     X \<noteq> [] \<and> Y \<noteq> [] \<and> X \<noteq> Y \<and> element mX \<noteq> element mY \<and>
     beforeClose (options mX) \<noteq> Some False \<and> beforeClose (options mY) \<noteq> Some False \<longrightarrow>
       (let s1 = run null [Open X dX, Open Y dY, Close (Some X) False, Fire, Fire, Fire, Fire] s0;
            s2 = run null [Close (Some Y) False, Fire] s1
        in body_overflow s1 = ''hidden'' \<and> is_open s1 Y \<and> \<not> is_open s1 X \<and> timers s1 = [] \<and>
           body_overflow s2 = [] \<and> \<not> some_active s2 \<and> timers s2 = []))"
    (is "?A \<and> ?B \<and> ?C \<and> (?H \<longrightarrow> ?D)")
proof -
  have A: ?A by (rule hasOtherActiveModals_some)
  have B: ?B by (simp add: settle_lock)
  have C: ?C
  proof
    assume "bodyScrollLock s0 \<and> idle s0 \<and> (\<forall>e \<in> set evs. \<not> registers e)"
    then have "lock_inv (run null evs s0)" by (simp add: lock_inv_run idle_lock_inv)
    then show "let r = run null evs s0
        in (some_active r \<longrightarrow> body_overflow r = ''hidden'') \<and>
           (body_overflow (settle i m silent r) = []) = (\<not> some_active (settle i m silent r))"
      by (simp add: lock_inv_def settle_lock Let_def)
  qed
  have D: "?H \<longrightarrow> ?D"
  proof
    assume a: ?H
    then have h: "\<not> sequential s0" "bodyScrollLock s0" "idle s0"
      "map_of (modals s0) X = Some mX" "map_of (modals s0) Y = Some mY"
      "X \<noteq> []" "Y \<noteq> []" "X \<noteq> Y" "element mX \<noteq> element mY"
      "beforeClose (options mX) \<noteq> Some False" "beforeClose (options mY) \<noteq> Some False"
      by blast+
    show ?D unfolding Let_def by (rule scroll_lock_scenario[OF h])
  qed
  from A B C D show ?thesis by (intro conjI)
qed

lemma demo_par_facts:
  "\<not> sequential (demo False)" "bodyScrollLock (demo False)" "idle (demo False)"
  "map_of (modals (demo False)) ''login'' = Some login_modal"
  "map_of (modals (demo False)) ''signup'' = Some signup_modal"
  "element login_modal \<noteq> element signup_modal"
  "beforeClose (options login_modal) = None"
  "beforeClose (options signup_modal) = None"
  "body_overflow (demo False) = []"
  by code_simp+

theorem scroll_lock_by_registry_scan_witness:
  "bodyScrollLock login_open \<and> body_overflow login_open = ''hidden'' \<and>
   body_overflow (settle ''login'' login_modal False login_open) = [] \<and>
   body_overflow (demo False) = [] \<and>
   body_overflow (run None [Open ''login'' None, Open ''signup'' None, Close (Some ''login'') False,
                            Fire, Fire, Fire, Fire] (demo False)) = ''hidden'' \<and>
   is_open (run None [Open ''login'' None, Open ''signup'' None, Close (Some ''login'') False,
                      Fire, Fire, Fire, Fire] (demo False)) ''signup'' \<and>
   body_overflow (run None [Close (Some ''signup'') False, Fire]
     (run None [Open ''login'' None, Open ''signup'' None, Close (Some ''login'') False,
                Fire, Fire, Fire, Fire] (demo False))) = []"
proof -
  note a = scroll_lock_by_registry_scan[where s = login_open and i = "''login''"
      and m = login_modal and silent = False and ?s0.0 = "demo False" and X = "''login''"
      and Y = "''signup''" and mX = login_modal and mY = signup_modal and null = None
      and dX = None and dY = None]
  have 1: "body_overflow (settle ''login'' login_modal False login_open) = []"
    using a by (simp add: login_open_facts)
  have 2: "body_overflow (run None [Open ''login'' None, Open ''signup'' None, Close (Some ''login'') False,
                            Fire, Fire, Fire, Fire] (demo False)) = ''hidden'' \<and>
   is_open (run None [Open ''login'' None, Open ''signup'' None, Close (Some ''login'') False,
                      Fire, Fire, Fire, Fire] (demo False)) ''signup'' \<and>
   body_overflow (run None [Close (Some ''signup'') False, Fire]
     (run None [Open ''login'' None, Open ''signup'' None, Close (Some ''login'') False,
                Fire, Fire, Fire, Fire] (demo False))) = []"
    using a by (simp add: demo_par_facts Let_def)
  from 1 2 show ?thesis by (simp add: login_open_facts demo_par_facts)
qed

section \<open>A constructed manager in sequential mode\<close>

lemma update_member:
  "(a, b) \<in> set (AList.update k v ms) \<Longrightarrow> (a, b) = (k, v) \<or> (a, b) \<in> set ms"
  by (induction ms) (auto split: if_splits)

lemma update_elements:
  "set (map (\<lambda>(i, m). element m) (AList.update k v ms)) \<subseteq>
     insert (element v) (set (map (\<lambda>(i, m). element m) ms))"
  using update_member[of _ _ k v ms] by force

lemma update_distinct_elements:
  assumes "distinct (map (\<lambda>(i, m). element m) ms)"
    and "element v \<notin> set (map (\<lambda>(i, m). element m) ms)"
  shows "distinct (map (\<lambda>(i, m). element m) (AList.update k v ms))"
  using assms
proof (induction ms)
  case Nil
  then show ?case by simp
next
  case (Cons p ms)
  obtain j m where p: "p = (j, m)" by (cases p)
  show ?case
  proof (cases "j = k")
    case True
    with Cons.prems p show ?thesis by auto
  next
    case False
    have "element m \<notin> set (map (\<lambda>(i, m). element m) (AList.update k v ms))"
    proof
      assume "element m \<in> set (map (\<lambda>(i, m). element m) (AList.update k v ms))"
      then obtain a b where ab: "(a, b) \<in> set (AList.update k v ms)" "element b = element m"
        by auto
      from update_member[OF ab(1)] ab(2) Cons.prems p show False by force
    qed
    moreover have "distinct (map (\<lambda>(i, m). element m) (AList.update k v ms))"
      using Cons by simp
    ultimately show ?thesis using False p by simp
  qed
qed

lemma update_keys_nonempty:
  "k \<noteq> [] \<Longrightarrow> \<forall>(i, m) \<in> set ms. i \<noteq> [] \<Longrightarrow> \<forall>(i, m) \<in> set (AList.update k v ms). i \<noteq> []"
  by (induction ms) auto

lemma fresh_start_register:
  assumes "fresh_start pe E s" "el \<notin> E" "i \<noteq> []"
  shows "fresh_start pe (insert el E) (register i el opts s)"
proof -
  let ?ms = "AList.update i (new_record el opts s) (modals s)"
  have e: "element (new_record el opts s) = el" by (simp add: new_record_def)
  have 1: "distinct (map fst ?ms)" using assms(1) by (simp add: fresh_start_def distinct_update)
  have 2: "distinct (map (\<lambda>(i, m). element m) ?ms)"
    using assms(1,2) by (intro update_distinct_elements) (auto simp add: fresh_start_def e)
  have 3: "\<forall>(i, m) \<in> set ?ms. i \<noteq> []"
    using assms(1,3) by (intro update_keys_nonempty) (auto simp add: fresh_start_def)
  have 4: "set (map (\<lambda>(i, m). element m) ?ms) \<subseteq> insert el E"
    using update_elements[of i "new_record el opts s" "modals s"] assms(1)
    by (auto simp add: fresh_start_def e)
  from 1 2 3 4 assms(1) show ?thesis
    by (simp add: fresh_start_def register_explicit)
qed

lemma fresh_start_fold:
  assumes "fresh_start pe E s" "distinct (map fst xs)" "set (map fst xs) \<inter> E = {}"
    "\<forall>(el, attr, gen) \<in> set xs. gen \<noteq> []"
  shows "fresh_start pe (E \<union> set (map fst xs))
     (fold (\<lambda>(el, attr, gen) s'. register (if attr \<noteq> [] then attr else gen) el no_options s') xs s)"
  using assms
proof (induction xs arbitrary: s E)
  case Nil
  then show ?case by simp
next
  case (Cons x xs)
  obtain el attr gen where x: "x = (el, attr, gen)" by (cases x)
  let ?i = "if attr \<noteq> [] then attr else gen"
  have "fresh_start pe (insert el E) (register ?i el no_options s)"
    using Cons.prems x by (intro fresh_start_register) auto
  from Cons.IH[OF this] Cons.prems x show ?case by (auto simp add: Un_commute insert_commute)
qed

lemma addListener_fields:
  "modals (addListener t h s) = modals s"
  "activeModal (addListener t h s) = activeModal s"
  "queue (addListener t h s) = queue s"
  "timers (addListener t h s) = timers s"
  "elems (addListener t h s) = elems s"
  "sequential (addListener t h s) = sequential s"
  "closeOnEsc (addListener t h s) = closeOnEsc s"
  by (simp_all add: addListener_def)

lemma fold_addListener_fields:
  "modals (fold (\<lambda>(el, target) s'. addListener (Element el) (TriggerClick target) s') xs s) = modals s"
  "activeModal (fold (\<lambda>(el, target) s'. addListener (Element el) (TriggerClick target) s') xs s) = activeModal s"
  "queue (fold (\<lambda>(el, target) s'. addListener (Element el) (TriggerClick target) s') xs s) = queue s"
  "timers (fold (\<lambda>(el, target) s'. addListener (Element el) (TriggerClick target) s') xs s) = timers s"
  "elems (fold (\<lambda>(el, target) s'. addListener (Element el) (TriggerClick target) s') xs s) = elems s"
  "sequential (fold (\<lambda>(el, target) s'. addListener (Element el) (TriggerClick target) s') xs s) = sequential s"
  "closeOnEsc (fold (\<lambda>(el, target) s'. addListener (Element el) (TriggerClick target) s') xs s) = closeOnEsc s"
  by (induction xs arbitrary: s; simp add: addListener_fields case_prod_beta)+

lemma fold_register_sequential:
  "sequential (fold (\<lambda>(el, attr, gen) s'. register (if attr \<noteq> [] then attr else gen) el no_options s') xs s)
     = sequential s"
  by (induction xs arbitrary: s) (simp_all add: register_explicit case_prod_beta)

lemma construct_start:
  fixes c :: config and p :: page
  assumes "distinct (map fst (page_modals p))"
    and "\<forall>(el, attr, gen) \<in> set (page_modals p). gen \<noteq> [] \<and> \<not> cls_active (page_elems p el)"
  shows "registry_ok (construct c p :: 'd manager) \<and> idle (construct c p :: 'd manager) \<and>
         sequential (construct c p :: 'd manager) = cfg_sequential c"
proof -
  define s0 :: "'d manager" where "s0 = \<lparr>modals = [], activeModal = None, queue = [],
             closeOnOverlay = (cfg_closeOnOverlay c \<noteq> Some False),
             closeOnEsc = (cfg_closeOnEsc c \<noteq> Some False),
             bodyScrollLock = (cfg_bodyScrollLock c \<noteq> Some False),
             sequential = cfg_sequential c,
             elems = page_elems p, body_overflow = page_overflow p,
             query_overlay = page_overlay p, query_closeBtn = page_closeBtn p,
             timers = [], now = 0, listeners = [], trace = []\<rparr>"
  define s1 where "s1 = fold (\<lambda>(el, attr, gen) s'.
                 register (if attr \<noteq> [] then attr else gen) el no_options s') (page_modals p) s0"
  define s2 where "s2 = fold (\<lambda>(el, target) s'. addListener (Element el) (TriggerClick target) s')
                 (page_triggers p) s1"
  have c: "construct c p = (if closeOnEsc s2 then addListener Document EscKeydown s2 else s2)"
    by (simp add: construct_def init_def Let_def s0_def s1_def s2_def)
  have "fresh_start (page_elems p) {} s0" by (simp add: fresh_start_def s0_def)
  moreover have "\<forall>(el, attr, gen) \<in> set (page_modals p). gen \<noteq> []"
    using assms(2) by auto
  ultimately have f1: "fresh_start (page_elems p) (set (map fst (page_modals p))) s1"
    unfolding s1_def using fresh_start_fold[of "page_elems p" "{}" s0 "page_modals p"] assms(1)
    by simp
  have q1: "sequential s1 = cfg_sequential c"
    by (simp add: s1_def fold_register_sequential s0_def)
  have same: "modals (construct c p :: 'd manager) = modals s1"
    "activeModal (construct c p :: 'd manager) = activeModal s1"
    "queue (construct c p :: 'd manager) = queue s1"
    "timers (construct c p :: 'd manager) = timers s1"
    "elems (construct c p :: 'd manager) = elems s1"
    "sequential (construct c p :: 'd manager) = sequential s1"
    by (simp_all add: c s2_def fold_addListener_fields addListener_fields)
  have inactive: "\<not> cls_active (page_elems p (element m))" if "(i, m) \<in> set (modals s1)" for i m
  proof -
    from that f1 have "element m \<in> set (map fst (page_modals p))"
      by (force simp add: fresh_start_def)
    with assms(2) show ?thesis by force
  qed
  from f1 have "registry_ok (construct c p :: 'd manager)"
    by (simp add: registry_ok_def same fresh_start_def)
  moreover from f1 inactive have "idle (construct c p :: 'd manager)"
    by (auto simp add: idle_def same fresh_start_def)
  ultimately show ?thesis by (simp add: same q1)
qed

text \<open>
  \<^bold>\<open>C1.\<close> Start from an idle manager in sequential mode whose registry is well formed,
  and let any sequence of calls of \<^verbatim>\<open>open\<close>, \<^verbatim>\<open>close\<close> and \<^verbatim>\<open>closeAll\<close>, of clicks and
  key presses, of timers running and of time passing happen to it (anything but a
  registration). In the state reached, whether timers are still pending or not, at
  most one registered id is Open: two ids whose elements both carry the class
  \<^verbatim>\<open>active\<close> are the same id. A manager constructed with \<^verbatim>\<open>sequential\<close> set, on a
  page whose modal elements do not carry the class \<^verbatim>\<open>active\<close>, is such a start.
\<close>

theorem sequential_at_most_one_open:
  fixes s0 :: "'d manager"
  shows "(sequential s0 \<and> registry_ok s0 \<and> idle s0 \<and> (\<forall>e \<in> set evs. \<not> registers e) \<longrightarrow>
           (\<forall>i j. is_open (run null evs s0) i \<longrightarrow> is_open (run null evs s0) j \<longrightarrow> i = j)) \<and>
         (cfg_sequential c \<and> distinct (map fst (page_modals p)) \<and>
          (\<forall>(el, attr, gen) \<in> set (page_modals p). gen \<noteq> [] \<and> \<not> cls_active (page_elems p el)) \<and>
          (\<forall>e \<in> set evs. \<not> registers e) \<longrightarrow>
           (\<forall>i j. is_open (run null evs (construct c p)) i \<longrightarrow>
                  is_open (run null evs (construct c p)) j \<longrightarrow> i = j))"
proof (intro conjI impI)
  assume "sequential s0 \<and> registry_ok s0 \<and> idle s0 \<and> (\<forall>e \<in> set evs. \<not> registers e)"
  then show "\<forall>i j. is_open (run null evs s0) i \<longrightarrow> is_open (run null evs s0) j \<longrightarrow> i = j"
    using seq_one_open[of s0 evs null] by blast
next
  assume a: "cfg_sequential c \<and> distinct (map fst (page_modals p)) \<and>
          (\<forall>(el, attr, gen) \<in> set (page_modals p). gen \<noteq> [] \<and> \<not> cls_active (page_elems p el)) \<and>
          (\<forall>e \<in> set evs. \<not> registers e)"
  then have "registry_ok (construct c p :: 'd manager) \<and> idle (construct c p :: 'd manager) \<and>
         sequential (construct c p :: 'd manager) = cfg_sequential c"
    by (intro construct_start) blast+
  with a show "\<forall>i j. is_open (run null evs (construct c p)) i \<longrightarrow>
                  is_open (run null evs (construct c p)) j \<longrightarrow> i = j"
    using seq_one_open[of "construct c p" evs null] by blast
qed


lemma demo_idle: "sequential (demo True) \<and> registry_ok (demo True) \<and> idle (demo True)"
  by code_simp

lemma demo_calls_calls: "\<forall>e \<in> set demo_calls. \<not> registers e"
  by code_simp

lemma demo_calls_open:
  "is_open (run None demo_calls (demo True)) ''signup''"
  "is_open (run None demo_calls (construct (demo_config True) demo_page)) ''signup''"
  by code_simp+

lemma demo_page_clean:
  "cfg_sequential (demo_config True)" "distinct (map fst (page_modals demo_page))"
  "\<forall>(el, attr, gen) \<in> set (page_modals demo_page). gen \<noteq> [] \<and> \<not> cls_active (page_elems demo_page el)"
  by code_simp+

theorem sequential_at_most_one_open_witness:
  "sequential (demo True) \<and> registry_ok (demo True) \<and> idle (demo True) \<and>
   list_all (\<lambda>e. \<not> registers e) demo_calls \<and>
   is_open (run None demo_calls (demo True)) ''signup'' \<and>
   \<not> is_open (run None demo_calls (demo True)) ''login'' \<and>
   \<not> is_open (run None demo_calls (demo True)) ''guarded'' \<and>
   cfg_sequential (demo_config True) \<and>
   is_open (run None demo_calls (construct (demo_config True) demo_page)) ''signup'' \<and>
   \<not> is_open (run None demo_calls (construct (demo_config True) demo_page)) ''login''"
proof -
  have "''login'' \<noteq> ''signup''" "''guarded'' \<noteq> ''signup''" by simp_all
  with sequential_at_most_one_open[where ?s0.0 = "demo True" and evs = demo_calls and null = None
      and c = "demo_config True" and p = demo_page]
    demo_idle demo_calls_calls demo_calls_open demo_page_clean
  show ?thesis unfolding list_all_iff by blast
qed

end
